theory Spec2Isabelle
  imports Main "HOL-Library.Sublist" "HOL-Library.Multiset"
begin

section \<open>Strings as Python uses them\<close>

text \<open>
  A Python \<open>str\<close> is modelled as a \<open>string\<close>; text outside ASCII is kept as its UTF-8
  bytes. \<open>str_contains sub s\<close> is Python's \<open>sub in s\<close> on strings.
\<close>

fun str_contains :: "string \<Rightarrow> string \<Rightarrow> bool" where
  "str_contains sub [] = (sub = [])"
| "str_contains sub (c # cs) = (prefix sub (c # cs) \<or> str_contains sub cs)"

text \<open>
  \<open>str_replace old new s\<close> is \<open>s.replace(old, new)\<close>: the occurrences of \<open>old\<close> are found
  from the left, without overlap, and all of them are replaced. An empty \<open>old\<close> matches
  before every character and at the end.
\<close>

function str_replace :: "string \<Rightarrow> string \<Rightarrow> string \<Rightarrow> string" where
  "str_replace old new s =
     (if old = [] then new @ concat (map (\<lambda>c. c # new) s)
      else if s = [] then []
      else if prefix old s then new @ str_replace old new (drop (length old) s)
      else hd s # str_replace old new (tl s))"
  by pat_completeness auto
termination
  by (relation "measure (\<lambda>(old, new, s). length s)") auto

declare str_replace.simps [simp del]

section \<open>Exceptions\<close>

text \<open>The exceptions the program can meet, as values.\<close>

datatype error =
  NetworkError | IndexError | ValueError | IntegrityError | OperationalError | SMTPError

section \<open>The network location of a URL\<close>

text \<open>
  \<open>urlparse(url).netloc\<close> comes from the standard library (\<open>urllib.parse.urlsplit\<close>).
  The model follows it step by step: leading characters up to the space are stripped,
  every TAB, CR and LF is deleted, a scheme (a letter, then letters, digits, \<open>+\<close>, \<open>-\<close>,
  \<open>.\<close>, up to the first colon) is removed when there is one, and the network location is
  what stands between a leading \<open>//\<close> and the first \<open>/\<close>, \<open>?\<close> or \<open>#\<close>; it is empty without
  a leading \<open>//\<close>. It keeps user information and port: it is more than the host name.
  The library raises \<open>ValueError\<close> when the network location has one of \<open>[\<close> and \<open>]\<close>
  without the other, when the text between the brackets is not an address it accepts,
  and when a network location outside ASCII fails its normalisation check. The last
  two tests belong to \<open>ipaddress\<close> and \<open>unicodedata\<close>: they are parameters.
\<close>

record urllib =
  bracketed_host_ok :: "string \<Rightarrow> bool"
  nfkc_ok :: "string \<Rightarrow> bool"

definition ascii_letters :: string where
  "ascii_letters = ''abcdefghijklmnopqrstuvwxyzABCDEFGHIJKLMNOPQRSTUVWXYZ''"

definition scheme_chars :: string where
  "scheme_chars = ascii_letters @ ''0123456789+-.''"

definition c0_or_space :: "char \<Rightarrow> bool" where
  "c0_or_space c = (of_char c \<le> (32::nat))"

definition unsafe_bytes :: string where
  "unsafe_bytes = [CHR 0x09, CHR 0x0D, CHR 0x0A]"

definition is_ascii :: "string \<Rightarrow> bool" where
  "is_ascii s = list_all (\<lambda>c. of_char c < (128::nat)) s"

text \<open>\<open>url.lstrip(...)\<close>, then the deletion of the unsafe bytes.\<close>

definition url_cleanup :: "string \<Rightarrow> string" where
  "url_cleanup url = filter (\<lambda>c. c \<notin> set unsafe_bytes) (dropWhile c0_or_space url)"

definition after_scheme :: "string \<Rightarrow> string" where
  "after_scheme url =
     (let i = length (takeWhile (\<lambda>c. c \<noteq> CHR '':'') url)
      in if i < length url \<and> 0 < i \<and> hd url \<in> set ascii_letters
            \<and> list_all (\<lambda>c. c \<in> set scheme_chars) (take i url)
         then drop (Suc i) url else url)"

text \<open>\<open>_splitnetloc(url, 2)[0]\<close>, or the empty string without a leading \<open>//\<close>.\<close>

definition netloc_part :: "string \<Rightarrow> string" where
  "netloc_part url =
     (let rest = after_scheme (url_cleanup url)
      in if take 2 rest = ''//''
         then takeWhile (\<lambda>c. c \<notin> set ''/?#'') (drop 2 rest)
         else [])"

text \<open>\<open>netloc.partition('[')[2].partition(']')[0]\<close>\<close>

definition bracketed_host :: "string \<Rightarrow> string" where
  "bracketed_host netloc =
     takeWhile (\<lambda>c. c \<noteq> CHR '']'') (drop 1 (dropWhile (\<lambda>c. c \<noteq> CHR ''['') netloc))"

definition urlparse_netloc :: "urllib \<Rightarrow> string \<Rightarrow> error + string" where
  "urlparse_netloc lib url =
     (let netloc = netloc_part url
      in if (CHR ''['' \<in> set netloc \<and> CHR '']'' \<notin> set netloc)
            \<or> (CHR '']'' \<in> set netloc \<and> CHR ''['' \<notin> set netloc)
         then Inl ValueError
         else if CHR ''['' \<in> set netloc \<and> CHR '']'' \<in> set netloc
                 \<and> \<not> bracketed_host_ok lib (bracketed_host netloc)
         then Inl ValueError
         else if netloc \<noteq> [] \<and> \<not> is_ascii netloc \<and> \<not> nfkc_ok lib netloc
         then Inl ValueError
         else Inr netloc)"

section \<open>Newspaper mapping and queries\<close>

text \<open>
  \<open>NEWS_MAP\<close> is a Python dict, which iterates in the order of its declaration: an
  association list in that order.
\<close>

definition NEWS_MAP :: "(string \<times> string) list" where
  "NEWS_MAP =
     [(''dailymirror.lk'', ''Daily Mirror''),
      (''ft.lk'', ''Daily FT''),
      (''sundayobserver.lk'', ''Sunday Observer''),
      (''sundaytimes.lk'', ''Sunday Times''),
      (''ceylontoday.lk'', ''Ceylon Today''),
      (''themorning.lk'', ''The Morning''),
      (''dailynews.lk'', ''Daily News''),
      (''island.lk'', ''The Island''),
      (''lankadeepa.lk'', ''Lanka Deepa''),
      (''mawbima.lk'', ''Maubima''),
      (''ada.lk'', ''Ada''),
      (''aruna.lk'', ''Aruna''),
      (''divaina.lk'', ''Divaina''),
      (''dinamina.lk'', ''Dinamina'')]"

definition dquote :: char where
  "dquote = CHR 0x22"

definition ENGLISH_QUERIES :: "string list" where
  "ENGLISH_QUERIES =
     [dquote # ''cargills'' @ [dquote], dquote # ''cargils'' @ [dquote]]"

text \<open>The two Sinhala spellings, as UTF-8 bytes between double quotes.\<close>

definition SINHALA_QUERIES :: "string list" where
  "SINHALA_QUERIES =
     [dquote # [CHR 0xE0, CHR 0xB6, CHR 0x9A, CHR 0xE0, CHR 0xB7, CHR 0x8F,
                CHR 0xE0, CHR 0xB6, CHR 0x9C, CHR 0xE0, CHR 0xB7, CHR 0x92,
                CHR 0xE0, CHR 0xB6, CHR 0xBD, CHR 0xE0, CHR 0xB7, CHR 0x8A,
                CHR 0xE0, CHR 0xB7, CHR 0x83, CHR 0xE0, CHR 0xB7, CHR 0x8A] @ [dquote],
      dquote # [CHR 0xE0, CHR 0xB6, CHR 0x9A, CHR 0xE0, CHR 0xB7, CHR 0x8F,
                CHR 0xE0, CHR 0xB6, CHR 0x9C, CHR 0xE0, CHR 0xB7, CHR 0x93,
                CHR 0xE0, CHR 0xB6, CHR 0xBD, CHR 0xE0, CHR 0xB7, CHR 0x8A,
                CHR 0xE0, CHR 0xB7, CHR 0x83, CHR 0xE0, CHR 0xB7, CHR 0x8A] @ [dquote]]"

definition SINHALA_DOMAINS :: "string list" where
  "SINHALA_DOMAINS =
     [''lankadeepa.lk'', ''mawbima.lk'', ''ada.lk'', ''aruna.lk'', ''divaina.lk'',
      ''dinamina.lk'']"

section \<open>Classifier\<close>

text \<open>
  Both classifiers look at \<open>urlparse(url).netloc.replace("www.", "")\<close>; an exception of
  \<open>urlparse\<close> leaves them.
\<close>

text \<open>The loop of \<open>get_newspaper_name\<close> over the items of the mapping.\<close>

fun news_lookup :: "(string \<times> string) list \<Rightarrow> string \<Rightarrow> string" where
  "news_lookup [] domain = ''Unknown''"
| "news_lookup ((key, name) # rest) domain =
     (if str_contains key domain then name else news_lookup rest domain)"

definition get_newspaper_name :: "urllib \<Rightarrow> string \<Rightarrow> error + string" where
  "get_newspaper_name lib url =
     (case urlparse_netloc lib url of
        Inl e \<Rightarrow> Inl e
      | Inr netloc \<Rightarrow> Inr (news_lookup NEWS_MAP (str_replace ''www.'' [] netloc)))"

text \<open>The loop of \<open>get_language\<close> over the Sinhala domains.\<close>

fun sinhala_lookup :: "string list \<Rightarrow> string \<Rightarrow> string" where
  "sinhala_lookup [] domain = ''English''"
| "sinhala_lookup (d # rest) domain =
     (if str_contains d domain then ''Sinhala'' else sinhala_lookup rest domain)"

definition get_language :: "urllib \<Rightarrow> string \<Rightarrow> error + string" where
  "get_language lib url =
     (case urlparse_netloc lib url of
        Inl e \<Rightarrow> Inl e
      | Inr netloc \<Rightarrow> Inr (sinhala_lookup SINHALA_DOMAINS (str_replace ''www.'' [] netloc)))"

section \<open>The classifier as the specification words it\<close>

text \<open>
  For comparison with the code. The host of a network location is what follows the
  last \<open>@\<close>, up to the port; the specification strips a \<open>www.\<close> at its start only.
\<close>

definition host_of_netloc :: "string \<Rightarrow> string" where
  "host_of_netloc netloc =
     takeWhile (\<lambda>c. c \<noteq> CHR '':'') (rev (takeWhile (\<lambda>c. c \<noteq> CHR ''@'') (rev netloc)))"

definition strip_leading_www :: "string \<Rightarrow> string" where
  "strip_leading_www d = (if prefix ''www.'' d then drop 4 d else d)"

definition newspaper_for_spec :: "string \<Rightarrow> string" where
  "newspaper_for_spec url =
     news_lookup NEWS_MAP (strip_leading_www (host_of_netloc (netloc_part url)))"

definition language_for_spec :: "string \<Rightarrow> string" where
  "language_for_spec url =
     (if list_ex (\<lambda>d. str_contains d (host_of_netloc (netloc_part url))) SINHALA_DOMAINS
      then ''Sinhala'' else ''English'')"

text \<open>
  \<open>occurrences_removed old s r\<close>: \<open>r\<close> is \<open>s\<close> with every occurrence of \<open>old\<close> deleted,
  the occurrences taken from the left and without overlap. Either \<open>old\<close> does not occur
  in \<open>s\<close>, or \<open>s\<close> is \<open>p @ old @ s'\<close> with this the first occurrence, and the rest of the
  work is done on \<open>s'\<close>.
\<close>

inductive occurrences_removed :: "string \<Rightarrow> string \<Rightarrow> string \<Rightarrow> bool" for old where
  none: "\<not> sublist old s \<Longrightarrow> occurrences_removed old s s"
| first: "\<not> sublist old (p @ butlast old) \<Longrightarrow> occurrences_removed old s r \<Longrightarrow>
          occurrences_removed old (p @ old @ s) (p @ r)"

text \<open>
  A URL of the usual shape: a scheme, \<open>://\<close>, a network location of printable ASCII
  without brackets, then nothing or a path, query or fragment; no TAB, CR or LF.
\<close>

definition ordinary_url :: "string \<Rightarrow> string \<Rightarrow> string \<Rightarrow> bool" where
  "ordinary_url sch n rest \<longleftrightarrow>
     sch \<noteq> [] \<and> hd sch \<in> set ascii_letters \<and> list_all (\<lambda>c. c \<in> set scheme_chars) sch \<and>
     list_all (\<lambda>c. c \<notin> set ''/?#[]'' \<and> \<not> c0_or_space c \<and> of_char c < (128::nat)) n \<and>
     (rest = [] \<or> hd rest \<in> set ''/?#'') \<and>
     list_all (\<lambda>c. c \<notin> set unsafe_bytes) rest"

definition plain_urllib :: urllib where
  "plain_urllib = \<lparr>bracketed_host_ok = (\<lambda>h. False), nfkc_ok = (\<lambda>n. False)\<rparr>"

section \<open>Search aggregator\<close>

text \<open>
  A raw result item of the search API. Every part may be missing; \<open>pagemap\<close>, when
  present, may lack \<open>metatags\<close>, and \<open>metatags\<close>, when present, is a list of
  dictionaries that may be empty.
\<close>

record pagemap =
  metatags :: "(string \<times> string) list list option"

record item =
  item_link :: "string option"
  item_title :: "string option"
  item_snippet :: "string option"
  item_pagemap :: "pagemap option"

text \<open>
  One request: \<open>requests.get\<close> or \<open>r.json()\<close> raises (\<open>Fail\<close>), or the body is a JSON
  object, of which the loop reads only the \<open>items\<close> entry (\<open>None\<close> when the key is absent).
\<close>

datatype response = Fail | Body "item list option"

text \<open>
  The loop of \<open>google_search\<close>, for the requests of one query string: \<open>get start\<close> is the
  response to the request with that offset. The loop has no bound of its own, so it
  is a partial function: \<open>None\<close> is a search that never returns. Beside the results it
  gives the offsets it requested, in order.
\<close>

partial_function (option) google_loop ::
  "(nat \<Rightarrow> response) \<Rightarrow> nat \<Rightarrow> item list \<Rightarrow> nat list \<Rightarrow> (error + item list \<times> nat list) option"
where
  "google_loop get start results calls =
     (case get start of
        Fail \<Rightarrow> Some (Inl NetworkError)
      | Body None \<Rightarrow> Some (Inr (results, calls @ [start]))
      | Body (Some items) \<Rightarrow>
          if length items < 10 then Some (Inr (results @ items, calls @ [start]))
          else google_loop get (start + 10) (results @ items) (calls @ [start]))"

declare google_loop.simps [code]

text \<open>The search API: the response to a query string and an offset.\<close>

type_synonym api = "string \<Rightarrow> nat \<Rightarrow> response"

definition google_search ::
  "api \<Rightarrow> string \<Rightarrow> string \<Rightarrow> (error + item list \<times> nat list) option" where
  "google_search search_api query site =
     google_loop (search_api (query @ '' site:'' @ site)) 1 [] []"

section \<open>The store\<close>

text \<open>
  The table \<open>press_articles\<close>. The columns an article is built with form
  \<open>press_article\<close>; \<open>id\<close> and \<open>created_at\<close> are given by the store when the row is
  inserted. Times are microseconds on the store's clock.
\<close>

record press_article =
  newspaper :: string
  language :: string
  title :: "string option"
  url :: string
  snippet :: "string option"
  query_used :: string
  publish_date :: string

record row =
  rid :: nat
  created_at :: int
  art :: press_article

text \<open>
  A session of \<open>SessionLocal\<close>: the committed table, the table as the open transaction
  sees it, and the objects added but not yet flushed. \<open>sessionmaker(bind=engine)\<close>
  leaves autoflush switched on, so a query first flushes the pending objects.
  The column \<open>url\<close> is unique: inserting a second row with a stored URL raises.
\<close>

record session =
  database :: "row list"
  view :: "row list"
  pending :: "press_article list"

definition next_id :: "row list \<Rightarrow> nat" where
  "next_id tbl = Suc (fold max (map rid tbl) 0)"

fun insert_rows :: "int \<Rightarrow> press_article list \<Rightarrow> row list \<Rightarrow> error + row list" where
  "insert_rows now [] tbl = Inr tbl"
| "insert_rows now (a # as) tbl =
     (if url a \<in> set (map (url \<circ> art) tbl) then Inl IntegrityError
      else insert_rows now as (tbl @ [\<lparr>rid = next_id tbl, created_at = now, art = a\<rparr>]))"

definition flush :: "int \<Rightarrow> session \<Rightarrow> error + session" where
  "flush now s =
     (case insert_rows now (pending s) (view s) of
        Inl e \<Rightarrow> Inl e
      | Inr v \<Rightarrow> Inr (s\<lparr>view := v, pending := []\<rparr>))"

text \<open>\<open>session.query(PressArticle).filter_by(url=u).first()\<close>\<close>

definition query_first_by_url :: "int \<Rightarrow> string \<Rightarrow> session \<Rightarrow> error + session \<times> row option" where
  "query_first_by_url now u s =
     (case flush now s of
        Inl e \<Rightarrow> Inl e
      | Inr s' \<Rightarrow> Inr (s', find (\<lambda>r. url (art r) = u) (view s')))"

definition session_add :: "press_article \<Rightarrow> session \<Rightarrow> session" where
  "session_add a s = s\<lparr>pending := pending s @ [a]\<rparr>"

text \<open>\<open>store_up\<close> tells whether the store accepts the commit.\<close>

definition commit :: "bool \<Rightarrow> int \<Rightarrow> session \<Rightarrow> error + session" where
  "commit store_up now s =
     (case flush now s of
        Inl e \<Rightarrow> Inl e
      | Inr s' \<Rightarrow> if store_up then Inr (s'\<lparr>database := view s'\<rparr>) else Inl OperationalError)"

definition rollback :: "session \<Rightarrow> session" where
  "rollback s = s\<lparr>view := database s, pending := []\<rparr>"

definition open_session :: "row list \<Rightarrow> session" where
  "open_session db = \<lparr>database = db, view = db, pending = []\<rparr>"

section \<open>The environment\<close>

text \<open>
  What the program finds around it: the library's two checks, the search API, the
  store's clock, whether the store accepts a commit, the email credentials, and how
  far a connection to the mail server gets.
\<close>

datatype smtp_state = SmtpUp | ConnectFails | LoginFails | SendFails

record env =
  lib :: urllib
  search_api :: api
  utcnow :: int
  store_up :: bool
  EMAIL_USER :: "string option"
  EMAIL_PASS :: "string option"
  smtp :: smtp_state

section \<open>Email\<close>

record message =
  msg_subject :: string
  msg_from :: string
  msg_to :: string
  msg_rows :: "(string \<times> string \<times> string \<times> string \<times> string) list"

text \<open>
  What a call of \<open>send_email\<close> did: the connections it opened to the mail server, the
  messages it passed to \<open>send_message\<close>, and what it printed.
\<close>

record mail_report =
  smtp_connects :: nat
  smtp_calls :: "message list"
  printed :: "string list"

text \<open>Python's truth value of an environment variable: unset and empty are false.\<close>

definition truthy :: "string option \<Rightarrow> bool" where
  "truthy v = (case v of None \<Rightarrow> False | Some s \<Rightarrow> s \<noteq> [])"

definition str_of :: "string option \<Rightarrow> string" where
  "str_of v = (case v of None \<Rightarrow> ''None'' | Some s \<Rightarrow> s)"

text \<open>One table row of the message body: newspaper, language, title, date, URL.\<close>

definition html_row :: "press_article \<Rightarrow> string \<times> string \<times> string \<times> string \<times> string" where
  "html_row a =
     (let pub = (if publish_date a = [] then ''Unknown'' else publish_date a)
      in (newspaper a, language a, str_of (title a), pub, url a))"

text \<open>
  The body of the \<open>try\<close>: connect, log in, send. It gives the exception it ends with,
  if any, and the messages that reached \<open>send_message\<close>; it opens one connection.
\<close>

definition smtp_session :: "smtp_state \<Rightarrow> message \<Rightarrow> error option \<times> message list" where
  "smtp_session st m =
     (case st of
        ConnectFails \<Rightarrow> (Some SMTPError, [])
      | LoginFails \<Rightarrow> (Some SMTPError, [])
      | SendFails \<Rightarrow> (Some SMTPError, [m])
      | SmtpUp \<Rightarrow> (None, [m]))"

definition send_email :: "env \<Rightarrow> press_article list \<Rightarrow> string \<Rightarrow> error + mail_report" where
  "send_email e articles subject =
     (if \<not> truthy (EMAIL_USER e) \<or> \<not> truthy (EMAIL_PASS e)
      then Inr \<lparr>smtp_connects = 0, smtp_calls = [],
                printed = [''Email credentials not configured, skipping email.'']\<rparr>
      else if articles = []
      then Inr \<lparr>smtp_connects = 0, smtp_calls = [],
                printed = [''No articles to send in email.'']\<rparr>
      else
        let msg = \<lparr>msg_subject = subject, msg_from = str_of (EMAIL_USER e),
                   msg_to = str_of (EMAIL_USER e), msg_rows = map html_row articles\<rparr>
        in case smtp_session (smtp e) msg of
             (None, calls) \<Rightarrow>
               Inr \<lparr>smtp_connects = 1, smtp_calls = calls,
                    printed = [''Email sent successfully.'']\<rparr>
           | (Some err, calls) \<Rightarrow>
               Inr \<lparr>smtp_connects = 1, smtp_calls = calls,
                    printed = [''Error sending email:'']\<rparr>)"

section \<open>Core scan\<close>

text \<open>
  The lookups with defaults of \<open>publish_date\<close>: a missing \<open>pagemap\<close> is \<open>{}\<close>, a missing
  \<open>metatags\<close> is \<open>[{}]\<close>, then element \<open>0\<close> is taken, which raises on an empty list.
\<close>

definition publish_date_of :: "item \<Rightarrow> error + string" where
  "publish_date_of it =
     (let pm = (case item_pagemap it of None \<Rightarrow> \<lparr>metatags = None\<rparr> | Some p \<Rightarrow> p);
          tags = (case metatags pm of None \<Rightarrow> [[]] | Some ts \<Rightarrow> ts)
      in case tags of
           [] \<Rightarrow> Inl IndexError
         | t # rest \<Rightarrow>
             Inr (case map_of t ''article:published_time'' of
                    None \<Rightarrow> ''Unknown'' | Some v \<Rightarrow> v))"

text \<open>
  A run of a piece of the scan either ends normally or raises; in both cases the
  list \<open>new_articles\<close> and the session are as the piece left them.
\<close>

datatype 's outcome = Normal 's | Raised error 's

record scan_state =
  sess :: session
  new_articles :: "press_article list"

text \<open>\<open>item.get("link", "")\<close>\<close>

definition link_or_empty :: "item \<Rightarrow> string" where
  "link_or_empty it = (case item_link it of None \<Rightarrow> [] | Some l \<Rightarrow> l)"

text \<open>
  The body of \<open>for item in items\<close>. The article is built after the date was read:
  first the newspaper, then the language, and either classifier may raise.
\<close>

definition scan_item :: "env \<Rightarrow> string \<Rightarrow> item \<Rightarrow> scan_state \<Rightarrow> scan_state outcome" where
  "scan_item e query it st =
     (let u = link_or_empty it
      in if u = [] then Normal st
         else case query_first_by_url (utcnow e) u (sess st) of
                Inl err \<Rightarrow> Raised err st
              | Inr (s1, existing) \<Rightarrow>
                  if existing \<noteq> None then Normal (st\<lparr>sess := s1\<rparr>)
                  else
                    (case publish_date_of it of
                       Inl err \<Rightarrow> Raised err (st\<lparr>sess := s1\<rparr>)
                     | Inr pd \<Rightarrow>
                         (case get_newspaper_name (lib e) u of
                            Inl err \<Rightarrow> Raised err (st\<lparr>sess := s1\<rparr>)
                          | Inr paper \<Rightarrow>
                              (case get_language (lib e) u of
                                 Inl err \<Rightarrow> Raised err (st\<lparr>sess := s1\<rparr>)
                               | Inr lang \<Rightarrow>
                                   let article =
                                         \<lparr>newspaper = paper,
                                          language = lang,
                                          title = item_title it,
                                          url = u,
                                          snippet = item_snippet it,
                                          query_used = query,
                                          publish_date = pd\<rparr>
                                   in Normal \<lparr>sess = session_add article s1,
                                              new_articles = new_articles st @ [article]\<rparr>))))"

fun scan_items :: "env \<Rightarrow> string \<Rightarrow> item list \<Rightarrow> scan_state \<Rightarrow> scan_state outcome" where
  "scan_items e query [] st = Normal st"
| "scan_items e query (it # its) st =
     (case scan_item e query it st of
        Normal st' \<Rightarrow> scan_items e query its st'
      | Raised err st' \<Rightarrow> Raised err st')"

text \<open>The body of \<open>for query in queries\<close>: \<open>None\<close> when a search never returns.\<close>

fun scan_queries :: "env \<Rightarrow> string \<Rightarrow> string list \<Rightarrow> scan_state \<Rightarrow> scan_state outcome option" where
  "scan_queries e domain [] st = Some (Normal st)"
| "scan_queries e domain (q # qs) st =
     (case google_search (search_api e) q domain of
        None \<Rightarrow> None
      | Some (Inl err) \<Rightarrow> Some (Raised err st)
      | Some (Inr (items, calls)) \<Rightarrow>
          (case scan_items e q items st of
             Normal st' \<Rightarrow> scan_queries e domain qs st'
           | Raised err st' \<Rightarrow> Some (Raised err st')))"

definition queries_for :: "string \<Rightarrow> string list" where
  "queries_for domain = (if domain \<in> set SINHALA_DOMAINS then SINHALA_QUERIES else ENGLISH_QUERIES)"

fun scan_domains :: "env \<Rightarrow> string list \<Rightarrow> scan_state \<Rightarrow> scan_state outcome option" where
  "scan_domains e [] st = Some (Normal st)"
| "scan_domains e (domain # ds) st =
     (case scan_queries e domain (queries_for domain) st of
        None \<Rightarrow> None
      | Some (Raised err st') \<Rightarrow> Some (Raised err st')
      | Some (Normal st') \<Rightarrow> scan_domains e ds st')"

definition subject_prefix :: string where
  "subject_prefix = ''Cargills Press Monitoring '' @ [CHR 0xE2, CHR 0x80, CHR 0x93] @ '' ''"

definition manual_subject :: string where
  "manual_subject = subject_prefix @ ''Manual Trigger''"

definition daily_subject :: string where
  "daily_subject = subject_prefix @ ''Daily Report (Last 24 hours)''"

text \<open>
  What a scan leaves: the list it returns, the committed table, the calls of
  \<open>send_email\<close> with their arguments, the messages handed to SMTP, and the exception
  the handler caught, if any.
\<close>

record scan_result =
  returned :: "press_article list"
  store :: "row list"
  notifier_calls :: "(press_article list \<times> string) list"
  smtp_log :: "message list"
  failure :: "error option"

text \<open>
  The handler of \<open>run_scan_and_save\<close>: rollback, then the function returns
  \<open>new_articles\<close> as it stands.
\<close>

definition scan_failed :: "error \<Rightarrow> scan_state \<Rightarrow> (press_article list \<times> string) list \<Rightarrow> scan_result" where
  "scan_failed err st calls =
     \<lparr>returned = new_articles st, store = database (rollback (sess st)),
      notifier_calls = calls, smtp_log = [], failure = Some err\<rparr>"

definition run_scan_and_save :: "env \<Rightarrow> bool \<Rightarrow> row list \<Rightarrow> scan_result option" where
  "run_scan_and_save e send_email_immediate db =
     (case scan_domains e (map fst NEWS_MAP) \<lparr>sess = open_session db, new_articles = []\<rparr> of
        None \<Rightarrow> None
      | Some (Raised err st) \<Rightarrow> Some (scan_failed err st [])
      | Some (Normal st) \<Rightarrow>
          (case commit (store_up e) (utcnow e) (sess st) of
             Inl err \<Rightarrow> Some (scan_failed err st [])
           | Inr s' \<Rightarrow>
               if send_email_immediate \<and> new_articles st \<noteq> [] then
                 (case send_email e (new_articles st) manual_subject of
                    Inl err \<Rightarrow>
                      Some (scan_failed err (st\<lparr>sess := s'\<rparr>) [(new_articles st, manual_subject)])
                  | Inr rep \<Rightarrow>
                      Some \<lparr>returned = new_articles st, store = database s',
                            notifier_calls = [(new_articles st, manual_subject)],
                            smtp_log = smtp_calls rep, failure = None\<rparr>)
               else
                 Some \<lparr>returned = new_articles st, store = database s',
                       notifier_calls = [], smtp_log = [], failure = None\<rparr>))"

section \<open>Manual trigger\<close>

text \<open>
  The route \<open>/run-scan\<close>: the scan with immediate email, the number shown in the flash
  message, and the full table, highest id first.
\<close>

definition run_scan :: "env \<Rightarrow> row list \<Rightarrow> (scan_result \<times> nat \<times> row list) option" where
  "run_scan e db =
     (case run_scan_and_save e True db of
        None \<Rightarrow> None
      | Some r \<Rightarrow> Some (r, length (returned r), rev (sort_key rid (store r))))"

section \<open>Daily job\<close>

definition one_day :: int where
  "one_day = 24 * 3600 * 1000000"

definition hours :: "int \<Rightarrow> int" where
  "hours n = n * 3600 * 1000000"

text \<open>
  The window query: rows created from one day before \<open>now_utc\<close> up to \<open>now_utc\<close>, both
  ends included, latest first. Rows with equal times come in the order the store
  chooses; here, the later inserted first.
\<close>

definition recent_articles :: "int \<Rightarrow> row list \<Rightarrow> row list" where
  "recent_articles now_utc tbl =
     rev (sort_key created_at
            (filter (\<lambda>r. now_utc - one_day \<le> created_at r \<and> created_at r \<le> now_utc) tbl))"

record daily_result =
  daily_store :: "row list"
  daily_window :: "row list"
  daily_notifier_calls :: "(press_article list \<times> string) list"
  daily_smtp_log :: "message list"
  daily_printed :: "string list"

text \<open>
  \<open>daily_job\<close>: \<open>now_utc\<close> is the clock read after the scan. The call of \<open>send_email\<close>
  is outside any handler here, so an exception of it would leave the job.
\<close>

definition daily_job :: "env \<Rightarrow> int \<Rightarrow> row list \<Rightarrow> (error + daily_result) option" where
  "daily_job e now_utc db =
     (case run_scan_and_save e False db of
        None \<Rightarrow> None
      | Some r \<Rightarrow>
          let recent = recent_articles now_utc (store r)
          in if recent \<noteq> [] then
               (case send_email e (map art recent) daily_subject of
                  Inl err \<Rightarrow> Some (Inl err)
                | Inr rep \<Rightarrow>
                    Some (Inr \<lparr>daily_store = store r, daily_window = recent,
                               daily_notifier_calls =
                                 notifier_calls r @ [(map art recent, daily_subject)],
                               daily_smtp_log = smtp_log r @ smtp_calls rep,
                               daily_printed = printed rep\<rparr>))
             else
               Some (Inr \<lparr>daily_store = store r, daily_window = recent,
                          daily_notifier_calls = notifier_calls r,
                          daily_smtp_log = smtp_log r,
                          daily_printed =
                            [''No new articles in last 24 hours; skipping daily email.'']\<rparr>))"

section \<open>Test doubles\<close>

text \<open>
  A search API that serves a fixed sequence of pages to every query: the request with
  offset \<open>10 * k + 1\<close> gets page \<open>k\<close>, a page \<open>None\<close> is a body without \<open>items\<close>, and
  past the last page the body has no \<open>items\<close> either.
\<close>

definition paged_api :: "item list option list \<Rightarrow> nat \<Rightarrow> response" where
  "paged_api pages start =
     (if start mod 10 = 1 \<and> start div 10 < length pages then Body (pages ! (start div 10))
      else Body None)"

text \<open>A page after which the loop goes on, and the items a page contributes.\<close>

definition full_page :: "item list option \<Rightarrow> bool" where
  "full_page p = (case p of None \<Rightarrow> False | Some xs \<Rightarrow> 10 \<le> length xs)"

definition page_items :: "item list option \<Rightarrow> item list" where
  "page_items p = (case p of None \<Rightarrow> [] | Some xs \<Rightarrow> xs)"

definition offsets :: "nat \<Rightarrow> nat \<Rightarrow> nat list" where
  "offsets k n = map (\<lambda>i. 10 * i + 1) [k..<k + n]"

definition sample_item :: "string \<Rightarrow> item" where
  "sample_item u =
     \<lparr>item_link = Some u, item_title = Some ''Cargills'', item_snippet = None,
      item_pagemap = None\<rparr>"

section \<open>Sample environments\<close>

text \<open>
  Concrete surroundings for evaluating the scan: working store and mail, and search
  APIs that answer the first search only (\<open>"cargills"\<close> on \<open>dailymirror.lk\<close>).
\<close>

definition sample_env :: "api \<Rightarrow> env" where
  "sample_env f =
     \<lparr>lib = plain_urllib, search_api = f, utcnow = 0, store_up = True,
      EMAIL_USER = Some ''me@example.com'', EMAIL_PASS = Some ''secret'', smtp = SmtpUp\<rparr>"

definition first_query :: string where
  "first_query = hd ENGLISH_QUERIES @ '' site:dailymirror.lk''"

text \<open>An item whose \<open>pagemap\<close> has the key \<open>metatags\<close> with an empty list.\<close>

definition short_tags_item :: "string \<Rightarrow> item" where
  "short_tags_item u =
     \<lparr>item_link = Some u, item_title = Some ''Cargills'', item_snippet = None,
      item_pagemap = Some \<lparr>metatags = Some []\<rparr>\<rparr>"

text \<open>One item for the first search; every later request raises.\<close>

definition api_then_fail :: api where
  "api_then_fail q start =
     (if q = first_query then Body (Some [sample_item ''https://www.dailymirror.lk/a''])
      else Fail)"

text \<open>A good item followed by one with empty \<open>metatags\<close>; no items elsewhere.\<close>

definition api_malformed :: api where
  "api_malformed q start =
     (if q = first_query
      then Body (Some [sample_item ''https://www.dailymirror.lk/a'',
                       short_tags_item ''https://www.dailymirror.lk/b''])
      else Body None)"

text \<open>One item for the first search; no items elsewhere.\<close>

definition api_one :: api where
  "api_one q start =
     (if q = first_query then Body (Some [sample_item ''https://www.dailymirror.lk/a''])
      else Body None)"

text \<open>The article the scan builds from \<open>sample_item\<close> of the Daily Mirror.\<close>

definition sample_article :: press_article where
  "sample_article =
     \<lparr>newspaper = ''Daily Mirror'', language = ''English'', title = Some ''Cargills'',
      url = ''https://www.dailymirror.lk/a'', snippet = None,
      query_used = hd ENGLISH_QUERIES, publish_date = ''Unknown''\<rparr>"

section \<open>Notions for the properties of the scan\<close>

text \<open>The state a piece of the scan leaves, however it ended.\<close>

fun out_state :: "'s outcome \<Rightarrow> 's" where
  "out_state (Normal s) = s"
| "out_state (Raised e s) = s"

text \<open>The URLs of a table, and the URLs a session knows: flushed or pending.\<close>

definition urls_of :: "row list \<Rightarrow> string list" where
  "urls_of tbl = map (url \<circ> art) tbl"

definition seen :: "session \<Rightarrow> string set" where
  "seen s = set (urls_of (view s)) \<union> set (map url (pending s))"

text \<open>
  What holds between two items of a scan that started on the table \<open>db\<close>: the
  committed table is untouched, the rows added to the view and the pending objects
  are the articles of \<open>new_articles\<close>, in order, and their URLs are pairwise different
  and not in \<open>db\<close>.
\<close>

definition scan_inv :: "row list \<Rightarrow> scan_state \<Rightarrow> bool" where
  "scan_inv db st \<longleftrightarrow>
     database (sess st) = db \<and>
     (\<exists>rows. view (sess st) = db @ rows \<and> map art rows @ pending (sess st) = new_articles st) \<and>
     distinct (map url (new_articles st)) \<and>
     set (map url (new_articles st)) \<inter> set (urls_of db) = {}"


text \<open>The row the store makes of \<open>sample_article\<close> in an empty table at time 0.\<close>

definition sample_row :: row where
  "sample_row = \<lparr>rid = 1, created_at = 0, art = sample_article\<rparr>"

text \<open>
  What the daily job leaves when its scan stored \<open>sample_article\<close> and the window
  contains it.
\<close>

definition daily_sample :: daily_result where
  "daily_sample =
     \<lparr>daily_store = [sample_row], daily_window = [sample_row],
      daily_notifier_calls = [([sample_article], daily_subject)],
      daily_smtp_log = [\<lparr>msg_subject = daily_subject, msg_from = ''me@example.com'',
                         msg_to = ''me@example.com'', msg_rows = [html_row sample_article]\<rparr>],
      daily_printed = [''Email sent successfully.'']\<rparr>"

text \<open>
  Two scans back to back against the same surroundings: the second starts on the
  table the first left.
\<close>

definition run_twice :: "env \<Rightarrow> bool \<Rightarrow> row list \<Rightarrow> (scan_result \<times> scan_result) option" where
  "run_twice e send_email_immediate db =
     (case run_scan_and_save e send_email_immediate db of
        None \<Rightarrow> None
      | Some r1 \<Rightarrow>
          (case run_scan_and_save e send_email_immediate (store r1) of
             None \<Rightarrow> None
           | Some r2 \<Rightarrow> Some (r1, r2)))"

text \<open>
  An item the scan passes over when the URLs of \<open>S\<close> are known to the session: it has
  no link, or its link is in \<open>S\<close>. A domain is covered when each of its searches
  returns and returns such items only.
\<close>

definition linked :: "string set \<Rightarrow> item \<Rightarrow> bool" where
  "linked S it \<longleftrightarrow> link_or_empty it = [] \<or> link_or_empty it \<in> S"

definition covered :: "api \<Rightarrow> string set \<Rightarrow> string \<Rightarrow> string list \<Rightarrow> bool" where
  "covered f S domain qs \<longleftrightarrow>
     (\<forall>q \<in> set qs. \<exists>items calls.
        google_search f q domain = Some (Inr (items, calls)) \<and> (\<forall>it \<in> set items. linked S it))"

section \<open>Properties of the classifier\<close>

lemma str_contains_sublist: "str_contains sub s = sublist sub s"
proof (induction s)
  case Nil
  show ?case by auto
next
  case (Cons c cs)
  show ?case using Cons.IH by (simp add: sublist_Cons_right)
qed

lemma news_lookup_none:
  "\<forall>k \<in> set (map fst m). \<not> str_contains k d \<Longrightarrow> news_lookup m d = ''Unknown''"
  by (induction m d rule: news_lookup.induct) auto

lemma news_lookup_first:
  "i < length m \<Longrightarrow> str_contains (fst (m ! i)) d \<Longrightarrow>
   \<forall>j < i. \<not> str_contains (fst (m ! j)) d \<Longrightarrow> news_lookup m d = snd (m ! i)"
proof (induction m d arbitrary: i rule: news_lookup.induct)
  case (1 domain)
  then show ?case by simp
next
  case (2 key name rest domain)
  show ?case
  proof (cases i)
    case 0
    with 2 show ?thesis by simp
  next
    case (Suc n)
    from 2(4) Suc have nk: "\<not> str_contains key domain" by force
    have "\<forall>j < n. \<not> str_contains (fst (rest ! j)) domain"
      using 2(4) Suc by force
    with 2(1)[OF nk, of n] 2(2,3) Suc nk show ?thesis by simp
  qed
qed

lemma sinhala_lookup_iff:
  "sinhala_lookup ds d = (if \<exists>k \<in> set ds. str_contains k d then ''Sinhala'' else ''English'')"
  by (induction ds d rule: sinhala_lookup.induct) auto

text \<open>
  \<open>str_replace\<close> deletes exactly the occurrences that \<open>occurrences_removed\<close> describes:
  the relation has one result, and it is the one the function computes.
\<close>

lemma str_replace_absent: "\<not> sublist old s \<Longrightarrow> str_replace old new s = s"
proof (induction old new s rule: str_replace.induct)
  case (1 old new s)
  from 1(3) have ne: "old \<noteq> []" by auto
  show ?case
  proof (cases "s = []")
    case True
    with ne show ?thesis by (subst str_replace.simps) simp
  next
    case False
    from 1(3) have np: "\<not> prefix old s" by (auto simp: prefix_imp_sublist)
    from False obtain c t where s: "s = c # t" by (cases s) auto
    from 1(3) s have "\<not> sublist old (tl s)" by (simp add: sublist_Cons_right)
    from 1(2) [OF ne False np this] show ?thesis
      using ne False np s by (subst str_replace.simps) simp
  qed
qed

lemma prefix_within:
  "prefix xs (ys @ zs) \<Longrightarrow> length xs \<le> length ys \<Longrightarrow> prefix xs ys"
  by (auto simp: prefix_append)

lemma prefix_first_occurrence:
  assumes ne: "old \<noteq> []" and pre: "prefix old ((c # p) @ old @ s)"
  shows "prefix old ((c # p) @ butlast old)"
proof -
  from ne obtain b l where old: "old = b @ [l]" by (cases old rule: rev_cases) auto
  have eq: "(c # p) @ old @ s = ((c # p) @ b) @ (l # s)" by (simp add: old)
  have len: "length old \<le> length ((c # p) @ b)" by (simp add: old)
  from pre have "prefix old (((c # p) @ b) @ (l # s))" unfolding eq .
  from prefix_within [OF this len] show ?thesis by (simp add: old)
qed

lemma not_sublist_butlast: "old \<noteq> [] \<Longrightarrow> \<not> sublist old (butlast old)"
proof
  assume ne: "old \<noteq> []" and sub: "sublist old (butlast old)"
  from sub have "length old \<le> length (butlast old)" by (rule sublist_length_le)
  with ne show False by (cases old rule: rev_cases) auto
qed

lemma str_replace_first:
  assumes ne: "old \<noteq> []" and no: "\<not> sublist old (p @ butlast old)"
  shows "str_replace old new (p @ old @ s) = p @ new @ str_replace old new s"
  using no
proof (induction p)
  case Nil
  show ?case using ne by (subst str_replace.simps) simp
next
  case (Cons c p)
  from Cons.prems have a: "\<not> prefix old ((c # p) @ butlast old)"
    by (auto simp: prefix_imp_sublist)
  with prefix_first_occurrence [OF ne] have np: "\<not> prefix old ((c # p) @ old @ s)" by blast
  from Cons.prems have "\<not> sublist old (p @ butlast old)"
    by (simp add: sublist_Cons_right)
  from Cons.IH [OF this] show ?case
    using ne np by (subst str_replace.simps) simp
qed

lemma occurrences_removed_unique:
  "occurrences_removed old s r \<Longrightarrow> old \<noteq> [] \<Longrightarrow> str_replace old [] s = r"
proof (induction rule: occurrences_removed.induct)
  case (none s)
  then show ?case by (simp add: str_replace_absent)
next
  case (first p s r)
  then show ?case using str_replace_first [of old p "[]" s] by simp
qed

lemma occurrences_removed_Cons:
  assumes r: "occurrences_removed old t r" and np: "\<not> prefix old (c # t)"
  shows "occurrences_removed old (c # t) (c # r)"
  using r
proof (cases rule: occurrences_removed.cases)
  case none
  with np have "\<not> sublist old (c # t)" by (simp add: sublist_Cons_right)
  with none show ?thesis by (simp add: occurrences_removed.none)
next
  case (first p s r')
  from np have ne: "old \<noteq> []" by auto
  have "\<not> prefix old (c # p @ butlast old)"
  proof
    assume "prefix old (c # p @ butlast old)"
    moreover have "prefix (c # p @ butlast old) (c # p @ old @ s)"
      using ne by (metis append_butlast_last_id append.assoc prefixI append_Cons)
    ultimately have "prefix old (c # p @ old @ s)" by (rule prefix_order.trans)
    with np first show False by simp
  qed
  with first(3) have "\<not> sublist old ((c # p) @ butlast old)"
    by (simp add: sublist_Cons_right)
  from occurrences_removed.first [OF this first(4), of] first(1,2) show ?thesis by simp
qed

lemma str_replace_removed: "old \<noteq> [] \<Longrightarrow> occurrences_removed old s (str_replace old [] s)"
proof (induction old "[] :: string" s rule: str_replace.induct)
  case (1 old s)
  show ?case
  proof (cases "s = []")
    case True
    have "\<not> sublist old []" using 1(3) by simp
    then have "occurrences_removed old [] []" by (rule occurrences_removed.none)
    then show ?thesis using True 1(3) by (subst str_replace.simps) simp
  next
    case False
    show ?thesis
    proof (cases "prefix old s")
      case True
      then obtain s' where s: "s = old @ s'" by (auto simp: prefix_def)
      have ih: "occurrences_removed old s' (str_replace old [] s')"
        using 1(1) [OF 1(3) False True 1(3)] s by simp
      have "\<not> sublist old ([] @ butlast old)"
        using not_sublist_butlast [OF 1(3)] by simp
      from occurrences_removed.first [OF this ih] have
        "occurrences_removed old (old @ s') (str_replace old [] s')" by simp
      then show ?thesis using s 1(3) False True by (subst str_replace.simps) simp
    next
      case np: False
      from False obtain c t where s: "s = c # t" by (cases s) auto
      have ih: "occurrences_removed old t (str_replace old [] t)"
        using 1(2) [OF 1(3) False np 1(3)] s by simp
      from occurrences_removed_Cons [OF ih, of c] np s
      have "occurrences_removed old (c # t) (c # str_replace old [] t)" by simp
      then show ?thesis using s 1(3) np by (subst str_replace.simps) simp
    qed
  qed
qed

text \<open>On a URL of the usual shape the network location is the part after \<open>://\<close>.\<close>

lemma scheme_chars_facts:
  "\<forall>c \<in> set scheme_chars. c \<noteq> CHR '':'' \<and> c \<notin> set unsafe_bytes"
  by (simp add: scheme_chars_def ascii_letters_def unsafe_bytes_def)

lemma letters_not_c0: "\<forall>c \<in> set ascii_letters. \<not> c0_or_space c"
proof -
  have "list_all (\<lambda>c. \<not> c0_or_space c) ascii_letters" by code_simp
  then show ?thesis by (simp add: list_all_iff)
qed

lemma c0_unsafe: "\<not> c0_or_space c \<Longrightarrow> c \<notin> set unsafe_bytes"
  by (auto simp: c0_or_space_def unsafe_bytes_def)

lemma urlparse_ordinary:
  assumes "ordinary_url sch n rest"
  shows "urlparse_netloc L (sch @ ''://'' @ n @ rest) = Inr n"
proof -
  from assms have ne: "sch \<noteq> []" and hd: "hd sch \<in> set ascii_letters"
    and sc: "\<forall>c \<in> set sch. c \<in> set scheme_chars"
    and nn: "\<forall>c \<in> set n. c \<notin> set ''/?#[]'' \<and> \<not> c0_or_space c \<and> of_char c < (128::nat)"
    and rs: "rest = [] \<or> hd rest \<in> set ''/?#''"
    and ru: "\<forall>c \<in> set rest. c \<notin> set unsafe_bytes"
    unfolding ordinary_url_def list_all_iff by blast+
  let ?u = "sch @ ''://'' @ n @ rest"
  from ne obtain a t where sch: "sch = a # t" by (cases sch) auto
  from hd sch have "a \<in> set ascii_letters" by simp
  with letters_not_c0 have na: "\<not> c0_or_space a" by blast
  have dw: "dropWhile c0_or_space ?u = ?u" unfolding sch using na by simp
  have u1: "\<forall>c \<in> set sch. c \<notin> set unsafe_bytes" using sc scheme_chars_facts by blast
  have u2: "\<forall>c \<in> set ''://''. c \<notin> set unsafe_bytes" by (simp add: unsafe_bytes_def)
  have u3: "\<forall>c \<in> set n. c \<notin> set unsafe_bytes" using nn c0_unsafe by blast
  have "\<forall>c \<in> set ?u. c \<notin> set unsafe_bytes"
    unfolding set_append ball_Un using u1 u2 u3 ru by blast
  then have fl: "filter (\<lambda>c. c \<notin> set unsafe_bytes) ?u = ?u" by (simp only: filter_id_conv)
  have clean: "url_cleanup ?u = ?u" by (simp only: url_cleanup_def dw fl)
  have nocolon: "\<forall>c \<in> set sch. c \<noteq> CHR '':''" using sc scheme_chars_facts by blast
  have tw: "takeWhile (\<lambda>c. c \<noteq> CHR '':'') ?u = sch"
    using nocolon by (simp add: takeWhile_append2)
  have l1: "length sch < length ?u" by simp
  have l2: "0 < length sch" using ne by simp
  have l3: "hd ?u \<in> set ascii_letters" using hd ne by simp
  have l4: "list_all (\<lambda>c. c \<in> set scheme_chars) (take (length sch) ?u)"
    using sc by (simp add: list_all_iff)
  have l5: "drop (Suc (length sch)) ?u = ''//'' @ n @ rest" by simp
  have as: "after_scheme ?u = ''//'' @ n @ rest"
    unfolding after_scheme_def tw Let_def using l1 l2 l3 l4 l5 by (simp only: simp_thms if_True)
  have nn': "\<forall>c \<in> set n. c \<notin> set ''/?#''" using nn by auto
  have tn: "takeWhile (\<lambda>c. c \<notin> set ''/?#'') (n @ rest) = n"
  proof (cases rest)
    case Nil
    then show ?thesis using nn' by (simp add: takeWhile_eq_all_conv)
  next
    case (Cons r rs')
    with rs have "r \<in> set ''/?#''" by simp
    then have "takeWhile (\<lambda>c. c \<notin> set ''/?#'') rest = []" unfolding Cons by simp
    then show ?thesis using nn' by (simp add: takeWhile_append2)
  qed
  have t2: "take 2 (''//'' @ n @ rest) = ''//''" by simp
  have d2: "drop 2 (''//'' @ n @ rest) = n @ rest" by simp
  have np: "netloc_part ?u = n"
    unfolding netloc_part_def clean as Let_def t2 d2 tn by simp
  have nb: "CHR ''['' \<notin> set n" "CHR '']'' \<notin> set n" using nn by auto
  have asc: "is_ascii n" using nn by (simp add: is_ascii_def list_all_iff)
  show ?thesis unfolding urlparse_netloc_def np Let_def using nb asc by simp
qed

text \<open>
  C7, as amended. For every URL that \<open>urlparse\<close> accepts, \<open>get_newspaper_name\<close> takes
  the network location of the URL (user information, host and port), removes every
  occurrence of \<open>www.\<close> from it, not only a leading one, and returns the name of the
  first pair of \<open>NEWS_MAP\<close>, in declaration order, whose key occurs in the result as a
  contiguous substring; it returns \<open>Unknown\<close> when no key occurs in it. For a URL that
  \<open>urlparse\<close> rejects with \<open>ValueError\<close> it raises that error instead of returning.
  The removal always has a result; on a URL of the usual shape the network location is
  the part between \<open>://\<close> and the path; leading blanks and line breaks inside the URL are
  dropped before the split; an opening bracket without a closing one is rejected.
\<close>

theorem get_newspaper_name_first_match:
  "(urlparse_netloc L u = Inl e \<longrightarrow> get_newspaper_name L u = Inl e)
   \<and> (urlparse_netloc L u = Inr n \<and> occurrences_removed ''www.'' n d \<longrightarrow>
        (\<exists>name. get_newspaper_name L u = Inr name \<and>
           (\<forall>i < length NEWS_MAP.
              sublist (fst (NEWS_MAP ! i)) d \<and> (\<forall>j < i. \<not> sublist (fst (NEWS_MAP ! j)) d)
              \<longrightarrow> name = snd (NEWS_MAP ! i)) \<and>
           ((\<forall>k \<in> set (map fst NEWS_MAP). \<not> sublist k d) \<longrightarrow> name = ''Unknown'')))
   \<and> (\<exists>r. occurrences_removed ''www.'' n r)
   \<and> (ordinary_url sch m rest \<longrightarrow> urlparse_netloc L (sch @ ''://'' @ m @ rest) = Inr m)
   \<and> get_newspaper_name L (CHR 0x20 # ''http://f'' @ [CHR 0x0A] @ ''t.lk/'') = Inr ''Daily FT''
   \<and> get_newspaper_name L ''http://[ft.lk/'' = Inl ValueError"
proof (intro conjI impI)
  assume "urlparse_netloc L u = Inl e"
  then show "get_newspaper_name L u = Inl e" by (simp add: get_newspaper_name_def)
next
  assume a: "urlparse_netloc L u = Inr n \<and> occurrences_removed ''www.'' n d"
  then have d: "str_replace ''www.'' [] n = d"
    using occurrences_removed_unique [of "''www.''" n d] by simp
  have g: "get_newspaper_name L u = Inr (news_lookup NEWS_MAP d)"
    using a d by (simp add: get_newspaper_name_def)
  show "\<exists>name. get_newspaper_name L u = Inr name \<and>
           (\<forall>i < length NEWS_MAP.
              sublist (fst (NEWS_MAP ! i)) d \<and> (\<forall>j < i. \<not> sublist (fst (NEWS_MAP ! j)) d)
              \<longrightarrow> name = snd (NEWS_MAP ! i)) \<and>
           ((\<forall>k \<in> set (map fst NEWS_MAP). \<not> sublist k d) \<longrightarrow> name = ''Unknown'')"
    unfolding g
    using news_lookup_first [of _ NEWS_MAP d] news_lookup_none [of NEWS_MAP d]
    by (simp add: str_contains_sublist)
next
  show "\<exists>r. occurrences_removed ''www.'' n r"
    using str_replace_removed [of "''www.''" n] by blast
next
  assume "ordinary_url sch m rest"
  then show "urlparse_netloc L (sch @ ''://'' @ m @ rest) = Inr m" by (rule urlparse_ordinary)
next
  show "get_newspaper_name L (CHR 0x20 # ''http://f'' @ [CHR 0x0A] @ ''t.lk/'') = Inr ''Daily FT''"
    by code_simp
next
  show "get_newspaper_name L ''http://[ft.lk/'' = Inl ValueError" by code_simp
qed


text \<open>
  The theorem of C7 at a URL of the Daily FT, at a rejected URL and at a URL of no
  configured paper.
\<close>

theorem get_newspaper_name_first_match_witness:
  "urlparse_netloc plain_urllib ''https://www.ft.lk/x'' = Inr ''www.ft.lk''
   \<and> occurrences_removed ''www.'' ''www.ft.lk'' ''ft.lk''
   \<and> sublist (fst (NEWS_MAP ! 1)) ''ft.lk''
   \<and> \<not> sublist (fst (NEWS_MAP ! 0)) ''ft.lk''
   \<and> get_newspaper_name plain_urllib ''https://www.ft.lk/x'' = Inr ''Daily FT''
   \<and> urlparse_netloc plain_urllib ''http://[::1/'' = Inl ValueError
   \<and> get_newspaper_name plain_urllib ''http://[::1/'' = Inl ValueError
   \<and> ordinary_url ''https'' ''example.com'' ''/a''
   \<and> urlparse_netloc plain_urllib ''https://example.com/a'' = Inr ''example.com''
   \<and> occurrences_removed ''www.'' ''example.com'' ''example.com''
   \<and> list_all (\<lambda>k. \<not> sublist k ''example.com'') (map fst NEWS_MAP)
   \<and> get_newspaper_name plain_urllib ''https://example.com/a'' = Inr ''Unknown''"
proof -
  note main = get_newspaper_name_first_match
  have n1: "urlparse_netloc plain_urllib ''https://www.ft.lk/x'' = Inr ''www.ft.lk''"
    by code_simp
  have "\<not> str_contains ''www.'' ''ft.lk''" by code_simp
  then have "occurrences_removed ''www.'' ''ft.lk'' ''ft.lk''"
    unfolding str_contains_sublist by (rule occurrences_removed.none)
  moreover have "\<not> str_contains ''www.'' ([] @ butlast ''www.'')" by code_simp
  then have "\<not> sublist ''www.'' ([] @ butlast ''www.'')" unfolding str_contains_sublist .
  ultimately have "occurrences_removed ''www.'' ([] @ ''www.'' @ ''ft.lk'') ([] @ ''ft.lk'')"
    by (rule occurrences_removed.first [rotated])
  then have r1: "occurrences_removed ''www.'' ''www.ft.lk'' ''ft.lk''" by simp
  have "str_contains (fst (NEWS_MAP ! 1)) ''ft.lk''" by code_simp
  then have hit: "sublist (fst (NEWS_MAP ! 1)) ''ft.lk''" unfolding str_contains_sublist .
  have "\<not> str_contains (fst (NEWS_MAP ! 0)) ''ft.lk''" by code_simp
  then have miss0: "\<not> sublist (fst (NEWS_MAP ! 0)) ''ft.lk''" unfolding str_contains_sublist .
  then have miss: "\<forall>j < (1::nat). \<not> sublist (fst (NEWS_MAP ! j)) ''ft.lk''" by simp
  have len: "(1::nat) < length NEWS_MAP" by (simp add: NEWS_MAP_def)
  have snd1: "snd (NEWS_MAP ! 1) = ''Daily FT''" by (simp add: NEWS_MAP_def)
  from main [of plain_urllib "''https://www.ft.lk/x''" _ "''www.ft.lk''" "''ft.lk''"] n1 r1
  obtain name where g: "get_newspaper_name plain_urllib ''https://www.ft.lk/x'' = Inr name"
    and f: "\<forall>i < length NEWS_MAP.
              sublist (fst (NEWS_MAP ! i)) ''ft.lk'' \<and>
              (\<forall>j < i. \<not> sublist (fst (NEWS_MAP ! j)) ''ft.lk'')
              \<longrightarrow> name = snd (NEWS_MAP ! i)"
    by blast
  from f len hit miss have "name = snd (NEWS_MAP ! 1)" by blast
  with g snd1 have a: "get_newspaper_name plain_urllib ''https://www.ft.lk/x'' = Inr ''Daily FT''"
    by simp
  have n2: "urlparse_netloc plain_urllib ''http://[::1/'' = Inl ValueError" by code_simp
  from main [of plain_urllib "''http://[::1/''" ValueError] n2
  have b: "get_newspaper_name plain_urllib ''http://[::1/'' = Inl ValueError" by blast
  have o: "ordinary_url ''https'' ''example.com'' ''/a''" by code_simp
  from main [of plain_urllib _ _ _ _ "''https''" "''example.com''" "''/a''"] o
  have "urlparse_netloc plain_urllib (''https'' @ ''://'' @ ''example.com'' @ ''/a'') = Inr ''example.com''"
    by blast
  then have n3: "urlparse_netloc plain_urllib ''https://example.com/a'' = Inr ''example.com''"
    by simp
  have "\<not> str_contains ''www.'' ''example.com''" by code_simp
  then have r3: "occurrences_removed ''www.'' ''example.com'' ''example.com''"
    unfolding str_contains_sublist by (rule occurrences_removed.none)
  have "list_all (\<lambda>k. \<not> str_contains k ''example.com'') (map fst NEWS_MAP)" by code_simp
  then have none: "list_all (\<lambda>k. \<not> sublist k ''example.com'') (map fst NEWS_MAP)"
    unfolding str_contains_sublist .
  then have none': "\<forall>k \<in> set (map fst NEWS_MAP). \<not> sublist k ''example.com''"
    unfolding list_all_iff .
  from main [of plain_urllib "''https://example.com/a''" _ "''example.com''" "''example.com''"] n3 r3
  obtain name' where g': "get_newspaper_name plain_urllib ''https://example.com/a'' = Inr name'"
    and f': "(\<forall>k \<in> set (map fst NEWS_MAP). \<not> sublist k ''example.com'') \<longrightarrow> name' = ''Unknown''"
    by blast
  from f' none' g' have c: "get_newspaper_name plain_urllib ''https://example.com/a'' = Inr ''Unknown''"
    by simp
  from n1 r1 hit miss0 a n2 b o n3 r3 none c show ?thesis by blast
qed

text \<open>
  C7 as the specification words it fails at three URLs. The host \<open>fwww.t.lk\<close> has no
  leading \<open>www.\<close> and contains no key, so the specification gives \<open>Unknown\<close>; the code
  removes the inner \<open>www.\<close>, finds \<open>ft.lk\<close> and answers \<open>Daily FT\<close>. In
  \<open>http://ft.lk@example.com/\<close> the host is \<open>example.com\<close>, yet the code finds \<open>ft.lk\<close> in the
  user information. At \<open>http://[ft.lk/\<close> the code raises, where the specification
  promises a name for every URL.
\<close>

theorem get_newspaper_name_spec_counterexample:
  "get_newspaper_name plain_urllib ''http://fwww.t.lk/a'' = Inr ''Daily FT''
   \<and> newspaper_for_spec ''http://fwww.t.lk/a'' = ''Unknown''
   \<and> host_of_netloc (netloc_part ''http://fwww.t.lk/a'') = ''fwww.t.lk''
   \<and> get_newspaper_name plain_urllib ''http://ft.lk@example.com/'' = Inr ''Daily FT''
   \<and> newspaper_for_spec ''http://ft.lk@example.com/'' = ''Unknown''
   \<and> host_of_netloc (netloc_part ''http://ft.lk@example.com/'') = ''example.com''
   \<and> get_newspaper_name plain_urllib ''http://[ft.lk/'' = Inl ValueError"
  by code_simp

text \<open>
  C8, as amended. For every URL that \<open>urlparse\<close> accepts, \<open>get_language\<close> returns
  \<open>English\<close> or \<open>Sinhala\<close>: \<open>Sinhala\<close> exactly when an entry of \<open>SINHALA_DOMAINS\<close> occurs
  in the network location of the URL after every occurrence of \<open>www.\<close> has been removed
  from it, \<open>English\<close> otherwise. For a URL that \<open>urlparse\<close> rejects with \<open>ValueError\<close> it
  raises that error instead of returning. The path of the URL plays no part.
\<close>

theorem get_language_partition:
  "(urlparse_netloc L u = Inl e \<longrightarrow> get_language L u = Inl e)
   \<and> (urlparse_netloc L u = Inr n \<longrightarrow>
        get_language L u = Inr ''English'' \<or> get_language L u = Inr ''Sinhala'')
   \<and> (urlparse_netloc L u = Inr n \<and> occurrences_removed ''www.'' n d \<longrightarrow>
        (get_language L u = Inr ''Sinhala'' \<longleftrightarrow> (\<exists>k \<in> set SINHALA_DOMAINS. sublist k d)) \<and>
        (get_language L u = Inr ''English'' \<longleftrightarrow> \<not> (\<exists>k \<in> set SINHALA_DOMAINS. sublist k d)))
   \<and> (\<exists>r. occurrences_removed ''www.'' n r)
   \<and> (ordinary_url sch m rest \<longrightarrow> urlparse_netloc L (sch @ ''://'' @ m @ rest) = Inr m)
   \<and> get_language L (CHR 0x20 # ''http://ada'' @ [CHR 0x0A] @ ''.lk/'') = Inr ''Sinhala''
   \<and> get_language L ''https://example.com/ada.lk'' = Inr ''English''
   \<and> get_language L ''http://[::1/'' = Inl ValueError"
proof (intro conjI impI)
  assume "urlparse_netloc L u = Inl e"
  then show "get_language L u = Inl e" by (simp add: get_language_def)
next
  assume "urlparse_netloc L u = Inr n"
  then show "get_language L u = Inr ''English'' \<or> get_language L u = Inr ''Sinhala''"
    by (simp add: get_language_def sinhala_lookup_iff)
next
  assume a: "urlparse_netloc L u = Inr n \<and> occurrences_removed ''www.'' n d"
  then have d: "str_replace ''www.'' [] n = d"
    using occurrences_removed_unique [of "''www.''" n d] by simp
  have g: "get_language L u = Inr (sinhala_lookup SINHALA_DOMAINS d)"
    using a d by (simp add: get_language_def)
  show "get_language L u = Inr ''Sinhala'' \<longleftrightarrow> (\<exists>k \<in> set SINHALA_DOMAINS. sublist k d)"
    unfolding g sinhala_lookup_iff str_contains_sublist by simp
  show "get_language L u = Inr ''English'' \<longleftrightarrow> \<not> (\<exists>k \<in> set SINHALA_DOMAINS. sublist k d)"
    unfolding g sinhala_lookup_iff str_contains_sublist by simp
next
  show "\<exists>r. occurrences_removed ''www.'' n r"
    using str_replace_removed [of "''www.''" n] by blast
next
  assume "ordinary_url sch m rest"
  then show "urlparse_netloc L (sch @ ''://'' @ m @ rest) = Inr m" by (rule urlparse_ordinary)
next
  show "get_language L (CHR 0x20 # ''http://ada'' @ [CHR 0x0A] @ ''.lk/'') = Inr ''Sinhala''"
    by code_simp
next
  show "get_language L ''https://example.com/ada.lk'' = Inr ''English''" by code_simp
next
  show "get_language L ''http://[::1/'' = Inl ValueError" by code_simp
qed

text \<open>The theorem of C8 at a Sinhala paper, at an English paper and at a rejected URL.\<close>

theorem get_language_partition_witness:
  "urlparse_netloc plain_urllib ''https://www.lankadeepa.lk/x'' = Inr ''www.lankadeepa.lk''
   \<and> occurrences_removed ''www.'' ''www.lankadeepa.lk'' ''lankadeepa.lk''
   \<and> list_ex (\<lambda>k. sublist k ''lankadeepa.lk'') SINHALA_DOMAINS
   \<and> get_language plain_urllib ''https://www.lankadeepa.lk/x'' = Inr ''Sinhala''
   \<and> urlparse_netloc plain_urllib ''https://www.ft.lk/x'' = Inr ''www.ft.lk''
   \<and> occurrences_removed ''www.'' ''www.ft.lk'' ''ft.lk''
   \<and> \<not> list_ex (\<lambda>k. sublist k ''ft.lk'') SINHALA_DOMAINS
   \<and> get_language plain_urllib ''https://www.ft.lk/x'' = Inr ''English''
   \<and> urlparse_netloc plain_urllib ''http://[::1/'' = Inl ValueError
   \<and> get_language plain_urllib ''http://[::1/'' = Inl ValueError"
proof -
  note main = get_language_partition
  have nw: "\<not> sublist ''www.'' ([] @ butlast ''www.'')"
  proof -
    have "\<not> str_contains ''www.'' ([] @ butlast ''www.'')" by code_simp
    then show ?thesis unfolding str_contains_sublist .
  qed
  have n1: "urlparse_netloc plain_urllib ''https://www.lankadeepa.lk/x'' = Inr ''www.lankadeepa.lk''"
    by code_simp
  have "\<not> str_contains ''www.'' ''lankadeepa.lk''" by code_simp
  then have "occurrences_removed ''www.'' ''lankadeepa.lk'' ''lankadeepa.lk''"
    unfolding str_contains_sublist by (rule occurrences_removed.none)
  from occurrences_removed.first [OF nw this]
  have r1: "occurrences_removed ''www.'' ''www.lankadeepa.lk'' ''lankadeepa.lk''" by simp
  have "list_ex (\<lambda>k. str_contains k ''lankadeepa.lk'') SINHALA_DOMAINS" by code_simp
  then have e1: "list_ex (\<lambda>k. sublist k ''lankadeepa.lk'') SINHALA_DOMAINS"
    unfolding str_contains_sublist .
  then have e1': "\<exists>k \<in> set SINHALA_DOMAINS. sublist k ''lankadeepa.lk''"
    unfolding list_ex_iff .
  from main [of plain_urllib "''https://www.lankadeepa.lk/x''" _ "''www.lankadeepa.lk''"
      "''lankadeepa.lk''"] n1 r1 e1'
  have a: "get_language plain_urllib ''https://www.lankadeepa.lk/x'' = Inr ''Sinhala''" by blast
  have n2: "urlparse_netloc plain_urllib ''https://www.ft.lk/x'' = Inr ''www.ft.lk''"
    by code_simp
  have "\<not> str_contains ''www.'' ''ft.lk''" by code_simp
  then have "occurrences_removed ''www.'' ''ft.lk'' ''ft.lk''"
    unfolding str_contains_sublist by (rule occurrences_removed.none)
  from occurrences_removed.first [OF nw this]
  have r2: "occurrences_removed ''www.'' ''www.ft.lk'' ''ft.lk''" by simp
  have "\<not> list_ex (\<lambda>k. str_contains k ''ft.lk'') SINHALA_DOMAINS" by code_simp
  then have e2: "\<not> list_ex (\<lambda>k. sublist k ''ft.lk'') SINHALA_DOMAINS"
    unfolding str_contains_sublist .
  then have e2': "\<not> (\<exists>k \<in> set SINHALA_DOMAINS. sublist k ''ft.lk'')"
    unfolding list_ex_iff .
  from main [of plain_urllib "''https://www.ft.lk/x''" _ "''www.ft.lk''" "''ft.lk''"] n2 r2 e2'
  have b: "get_language plain_urllib ''https://www.ft.lk/x'' = Inr ''English''" by blast
  have n3: "urlparse_netloc plain_urllib ''http://[::1/'' = Inl ValueError" by code_simp
  from main [of plain_urllib "''http://[::1/''" ValueError] n3
  have c: "get_language plain_urllib ''http://[::1/'' = Inl ValueError" by blast
  from n1 r1 e1 a n2 r2 e2 b n3 c show ?thesis by blast
qed

text \<open>
  C8 as the specification words it fails at three URLs. At \<open>http://[::1/\<close> the code
  raises, where the specification promises a value for every URL. The host
  \<open>adwww.a.lk\<close> contains no Sinhala domain, yet the code removes the inner \<open>www.\<close>, finds
  \<open>ada.lk\<close> and answers \<open>Sinhala\<close>. In \<open>http://ada.lk@example.com/\<close> the host is
  \<open>example.com\<close>, yet the code finds \<open>ada.lk\<close> in the user information.
\<close>

theorem get_language_spec_counterexample:
  "get_language plain_urllib ''http://[::1/'' = Inl ValueError
   \<and> get_language plain_urllib ''http://adwww.a.lk/x'' = Inr ''Sinhala''
   \<and> language_for_spec ''http://adwww.a.lk/x'' = ''English''
   \<and> host_of_netloc (netloc_part ''http://adwww.a.lk/x'') = ''adwww.a.lk''
   \<and> get_language plain_urllib ''http://ada.lk@example.com/'' = Inr ''Sinhala''
   \<and> language_for_spec ''http://ada.lk@example.com/'' = ''English''
   \<and> host_of_netloc (netloc_part ''http://ada.lk@example.com/'') = ''example.com''"
  by code_simp

section \<open>Properties of the search aggregator\<close>

lemma paged_api_at:
  "paged_api ps (Suc (10 * k)) = (if k < length ps then Body (ps ! k) else Body None)"
proof -
  have "Suc (10 * k) div 10 = k" "Suc (10 * k) mod 10 = 1" by presburger+
  then show ?thesis by (simp add: paged_api_def)
qed

lemma offsets_Suc: "offsets k (Suc n) = Suc (10 * k) # offsets (Suc k) n"
  by (simp add: offsets_def upt_conv_Cons del: upt_Suc)

lemma google_loop_paged:
  "google_loop (paged_api ps) (Suc (10 * k)) acc calls =
     Some (Inr (acc @ concat (map page_items (take (Suc (length (takeWhile full_page (drop k ps)))) (drop k ps))),
                calls @ offsets k (Suc (length (takeWhile full_page (drop k ps))))))"
proof (induction "length ps - k" arbitrary: k acc calls)
  case 0
  then have "\<not> k < length ps" by simp
  then show ?case
    by (subst google_loop.simps) (simp add: paged_api_at offsets_Suc offsets_def)
next
  case (Suc n)
  then have k: "k < length ps" by simp
  then have dr: "drop k ps = ps ! k # drop (Suc k) ps" by (simp add: Cons_nth_drop_Suc)
  show ?case
  proof (cases "ps ! k")
    case None
    then show ?thesis using k
      by (subst google_loop.simps)
         (simp add: paged_api_at dr full_page_def page_items_def offsets_Suc offsets_def)
  next
    case (Some xs)
    show ?thesis
    proof (cases "length xs < 10")
      case True
      then show ?thesis using k Some
        by (subst google_loop.simps)
           (simp add: paged_api_at dr full_page_def page_items_def offsets_Suc offsets_def)
    next
      case False
      have n: "n = length ps - Suc k" using Suc(2) by simp
      have st: "Suc (10 * k) + 10 = Suc (10 * Suc k)" by simp
      have step: "google_loop (paged_api ps) (Suc (10 * k)) acc calls =
                  google_loop (paged_api ps) (Suc (10 * Suc k)) (acc @ xs) (calls @ [Suc (10 * k)])"
        using k Some False
        by (subst google_loop.simps) (simp only: paged_api_at if_True response.case option.case if_False st)
      show ?thesis
        unfolding step Suc(1)[OF n]
        using Some False by (simp add: dr full_page_def page_items_def offsets_Suc)
    qed
  qed
qed

text \<open>
  C4. Against an API that serves a sequence of pages, \<open>google_search\<close> returns: it asks
  for offset 1 first and for 10 more after every page of at least 10 items, stops at
  the first page without items or with fewer than 10 (or past the last page), and
  returns the items of all pages it saw, in order. For pages of 10, 10 and 7 items
  these are the 27 items, with the offsets 1, 11, 21; when the first body has no
  \<open>items\<close> the result is empty after the single request with offset 1.
\<close>

theorem google_search_pagination:
  "(f (query @ '' site:'' @ site) = paged_api pages \<longrightarrow>
      google_search f query site =
        Some (Inr (concat (map page_items (take (Suc (length (takeWhile full_page pages))) pages)),
                   map (\<lambda>i. 10 * i + 1) [0..<Suc (length (takeWhile full_page pages))])))
   \<and> (f (query @ '' site:'' @ site) = paged_api [Some p1, Some p2, Some p3] \<and>
        length p1 = 10 \<and> length p2 = 10 \<and> length p3 = 7 \<longrightarrow>
      google_search f query site = Some (Inr (p1 @ p2 @ p3, [1, 11, 21])) \<and>
      length (p1 @ p2 @ p3) = 27)
   \<and> (f (query @ '' site:'' @ site) 1 = Body None \<longrightarrow>
      google_search f query site = Some (Inr ([], [1])))"
proof (intro conjI impI)
  assume a: "f (query @ '' site:'' @ site) = paged_api pages"
  show "google_search f query site =
        Some (Inr (concat (map page_items (take (Suc (length (takeWhile full_page pages))) pages)),
                   map (\<lambda>i. 10 * i + 1) [0..<Suc (length (takeWhile full_page pages))]))"
    unfolding google_search_def a
    using google_loop_paged [of pages 0 "[]" "[]"]
    by (simp add: offsets_def del: upt_Suc)
next
  assume a: "f (query @ '' site:'' @ site) = paged_api [Some p1, Some p2, Some p3] \<and>
        length p1 = 10 \<and> length p2 = 10 \<and> length p3 = 7"
  show "google_search f query site = Some (Inr (p1 @ p2 @ p3, [1, 11, 21]))"
    unfolding google_search_def conjunct1 [OF a]
    using google_loop_paged [of "[Some p1, Some p2, Some p3]" 0 "[]" "[]"] a
    by (simp add: offsets_def full_page_def page_items_def upt_conv_Cons del: upt_Suc)
  show "length (p1 @ p2 @ p3) = 27" using a by simp
next
  assume a: "f (query @ '' site:'' @ site) 1 = Body None"
  show "google_search f query site = Some (Inr ([], [1]))"
    unfolding google_search_def by (subst google_loop.simps) (simp only: a [unfolded One_nat_def] response.case option.case One_nat_def append_Nil)
qed

text \<open>The theorem of C4 on pages of 10, 10 and 7 items, and on a first page without items.\<close>

theorem google_search_pagination_witness:
  "length (replicate 10 (sample_item ''a'')) = 10
   \<and> length (replicate 10 (sample_item ''b'')) = 10
   \<and> length (replicate 7 (sample_item ''c'')) = 7
   \<and> google_search
        (\<lambda>q. paged_api [Some (replicate 10 (sample_item ''a'')),
                         Some (replicate 10 (sample_item ''b'')),
                         Some (replicate 7 (sample_item ''c''))]) ''q'' ''ft.lk''
      = Some (Inr (replicate 10 (sample_item ''a'') @ replicate 10 (sample_item ''b'')
                     @ replicate 7 (sample_item ''c''), [1, 11, 21]))
   \<and> google_search (\<lambda>q. paged_api [None]) ''q'' ''ft.lk'' = Some (Inr ([], [1]))"
  using google_search_pagination
          [of "\<lambda>q. paged_api [Some (replicate 10 (sample_item ''a'')),
                                 Some (replicate 10 (sample_item ''b'')),
                                 Some (replicate 7 (sample_item ''c''))]" "''q''" "''ft.lk''"
              "[]" "replicate 10 (sample_item ''a'')" "replicate 10 (sample_item ''b'')"
              "replicate 7 (sample_item ''c'')"]
        google_search_pagination
          [of "\<lambda>q. paged_api [None]" "''q''" "''ft.lk''" "[None]" "[]" "[]" "[]"]
  by (simp add: full_page_def page_items_def)

section \<open>Properties of the scan\<close>

text \<open>Every path of \<open>send_email\<close> ends in a return.\<close>

lemma send_email_Inr: "\<exists>rep. send_email e articles subject = Inr rep"
  by (cases "smtp e") (simp_all add: send_email_def smtp_session_def Let_def)

text \<open>
  C1, at a failing input. The first search gives one new item, the second request
  raises. The handler rolls back, so the store stays empty, but the function returns
  the list it had accumulated: one article, not the empty list the claim promises.
\<close>

theorem run_scan_and_save_returns_rolled_back:
  "run_scan_and_save (sample_env api_then_fail) True [] =
     Some \<lparr>returned = [sample_article], store = [], notifier_calls = [], smtp_log = [],
           failure = Some NetworkError\<rparr>"
  by code_simp

text \<open>
  C2, at a failing input. For an item whose \<open>metatags\<close> is the empty list, taking
  element 0 raises \<open>IndexError\<close> instead of giving \<open>Unknown\<close>; in a scan the exception
  reaches the handler and the whole batch, with the good item before it, is rolled
  back.
\<close>

theorem publish_date_short_metatags_raises:
  "publish_date_of (short_tags_item ''https://www.dailymirror.lk/b'') = Inl IndexError
   \<and> run_scan_and_save (sample_env api_malformed) False [] =
       Some \<lparr>returned = [sample_article], store = [], notifier_calls = [], smtp_log = [],
             failure = Some IndexError\<rparr>"
  by code_simp



text \<open>A flush inserts the pending objects at the end of the view, in order.\<close>

lemma step_dup:
  "url a \<in> set (map (url \<circ> art) tbl) \<Longrightarrow> insert_rows now (a # ps) tbl = Inl IntegrityError"
  by (simp only: insert_rows.simps if_True)

lemma step_new:
  "url a \<notin> set (map (url \<circ> art) tbl) \<Longrightarrow>
   insert_rows now (a # ps) tbl =
     insert_rows now ps (tbl @ [\<lparr>rid = next_id tbl, created_at = now, art = a\<rparr>])"
  by (simp only: insert_rows.simps if_False)

lemma insert_rows_Inr:
  "insert_rows now ps tbl = Inr v \<Longrightarrow> \<exists>rows. v = tbl @ rows \<and> map art rows = ps"
proof (induction ps arbitrary: tbl)
  case Nil
  then show ?case by simp
next
  case (Cons a ps)
  let ?r = "\<lparr>rid = next_id tbl, created_at = now, art = a\<rparr>"
  show ?case
  proof (cases "url a \<in> set (map (url \<circ> art) tbl)")
    case True
    from step_dup [OF True, of now ps] Cons.prems show ?thesis
      by (simp del: insert_rows.simps)
  next
    case False
    from step_new [OF False, of now ps] Cons.prems
    have "insert_rows now ps (tbl @ [?r]) = Inr v" by (simp del: insert_rows.simps)
    from Cons.IH [OF this] obtain rows where
      v: "v = (tbl @ [?r]) @ rows" and m: "map art rows = ps"
      by blast
    show ?thesis
    proof (intro exI [of _ "?r # rows"] conjI)
      show "v = tbl @ ?r # rows" by (simp add: v)
      show "map art (?r # rows) = a # ps" by (simp add: m)
    qed
  qed
qed

lemma flush_Inr:
  assumes "flush now s = Inr s'"
  shows "database s' = database s" "pending s' = []"
        "\<exists>rows. view s' = view s @ rows \<and> map art rows = pending s"
proof -
  from assms obtain v where v: "insert_rows now (pending s) (view s) = Inr v"
    and s': "s' = s\<lparr>view := v, pending := []\<rparr>"
    unfolding flush_def by (cases "insert_rows now (pending s) (view s)") auto
  from s' show "database s' = database s" by simp
  from s' show "pending s' = []" by simp
  from insert_rows_Inr [OF v] obtain rows where
    "v = view s @ rows" "map art rows = pending s" by blast
  with s' show "\<exists>rows. view s' = view s @ rows \<and> map art rows = pending s" by simp
qed

lemma flush_nil: "pending s = [] \<Longrightarrow> flush now s = Inr s"
  by (cases s) (simp add: flush_def)

lemma find_None_url: "find (\<lambda>r. url (art r) = u) tbl = None \<longleftrightarrow> u \<notin> set (urls_of tbl)"
  by (induction tbl) (auto simp: urls_of_def)

text \<open>The five ways the body of the item loop can go.\<close>

lemma scan_item_cases:
  obtains (skip) "link_or_empty it = []" "scan_item e q it st = Normal st"
  | (flush_fails) err where "link_or_empty it \<noteq> []" "flush (utcnow e) (sess st) = Inl err"
      "scan_item e q it st = Raised err st"
  | (known) s1 where "link_or_empty it \<noteq> []" "flush (utcnow e) (sess st) = Inr s1"
      "link_or_empty it \<in> set (urls_of (view s1))"
      "scan_item e q it st = Normal (st\<lparr>sess := s1\<rparr>)"
  | (raised) s1 err where "link_or_empty it \<noteq> []" "flush (utcnow e) (sess st) = Inr s1"
      "link_or_empty it \<notin> set (urls_of (view s1))"
      "scan_item e q it st = Raised err (st\<lparr>sess := s1\<rparr>)"
  | (added) s1 a where "link_or_empty it \<noteq> []" "flush (utcnow e) (sess st) = Inr s1"
      "link_or_empty it \<notin> set (urls_of (view s1))"
      "url a = link_or_empty it"
      "scan_item e q it st =
         Normal \<lparr>sess = session_add a s1, new_articles = new_articles st @ [a]\<rparr>"
proof (cases "link_or_empty it = []")
  case True
  then have "scan_item e q it st = Normal st" by (simp add: scan_item_def)
  with True show ?thesis by (rule skip)
next
  case ne: False
  show ?thesis
  proof (cases "flush (utcnow e) (sess st)")
    case (Inl err)
    with ne have "scan_item e q it st = Raised err st"
      by (simp add: scan_item_def query_first_by_url_def)
    with ne Inl show ?thesis by (rule flush_fails)
  next
    case (Inr s1)
    show ?thesis
    proof (cases "link_or_empty it \<in> set (urls_of (view s1))")
      case True
      then have "find (\<lambda>r. url (art r) = link_or_empty it) (view s1) \<noteq> None"
        by (simp add: find_None_url)
      with ne Inr have "scan_item e q it st = Normal (st\<lparr>sess := s1\<rparr>)"
        by (simp add: scan_item_def query_first_by_url_def)
      with ne Inr True show ?thesis by (rule known)
    next
      case False
      then have f: "find (\<lambda>r. url (art r) = link_or_empty it) (view s1) = None"
        by (simp add: find_None_url)
      have q: "query_first_by_url (utcnow e) (link_or_empty it) (sess st) = Inr (s1, None)"
        by (simp add: query_first_by_url_def Inr f)
      show ?thesis
      proof (cases "publish_date_of it")
        case (Inl err)
        with ne q have "scan_item e q it st = Raised err (st\<lparr>sess := s1\<rparr>)"
          by (simp add: scan_item_def)
        with ne Inr False show ?thesis by (rule raised)
      next
        case pd: (Inr pd)
        show ?thesis
        proof (cases "get_newspaper_name (lib e) (link_or_empty it)")
          case (Inl err)
          with ne q pd have "scan_item e q it st = Raised err (st\<lparr>sess := s1\<rparr>)"
            by (simp add: scan_item_def)
          with ne Inr False show ?thesis by (rule raised)
        next
          case paper: (Inr paper)
          show ?thesis
          proof (cases "get_language (lib e) (link_or_empty it)")
            case (Inl err)
            with ne q pd paper have "scan_item e q it st = Raised err (st\<lparr>sess := s1\<rparr>)"
              by (simp add: scan_item_def)
            with ne Inr False show ?thesis by (rule raised)
          next
            case lang: (Inr lang)
            define a where "a = \<lparr>newspaper = paper, language = lang, title = item_title it,
                  url = link_or_empty it, snippet = item_snippet it, query_used = q,
                  publish_date = pd\<rparr>"
            have ua: "url a = link_or_empty it" by (simp add: a_def)
            from ne q pd paper lang have
              "scan_item e q it st =
                 Normal \<lparr>sess = session_add a s1, new_articles = new_articles st @ [a]\<rparr>"
              by (simp add: scan_item_def Let_def a_def)
            with ne Inr False ua show ?thesis by (rule added)
          qed
        qed
      qed
    qed
  qed
qed

text \<open>The invariant is kept by every item, query and domain that ends normally.\<close>

lemma urls_of_append: "urls_of (xs @ ys) = urls_of xs @ urls_of ys"
  by (simp add: urls_of_def)

lemma urls_of_rows: "map art rows = arts \<Longrightarrow> urls_of rows = map url arts"
proof -
  assume "map art rows = arts"
  then have "map url (map art rows) = map url arts" by simp
  then show ?thesis by (simp add: urls_of_def)
qed

lemma flush_inv:
  assumes inv: "scan_inv db st" and fl: "flush now (sess st) = Inr s1"
  shows "database s1 = db" "pending s1 = []"
        "\<exists>rows. view s1 = db @ rows \<and> map art rows = new_articles st"
proof -
  from inv have d: "database (sess st) = db" by (simp add: scan_inv_def)
  from inv obtain rows0 where v0: "view (sess st) = db @ rows0"
    and m0: "map art rows0 @ pending (sess st) = new_articles st"
    unfolding scan_inv_def by blast
  from flush_Inr(1) [OF fl] d show "database s1 = db" by simp
  from flush_Inr(2) [OF fl] show "pending s1 = []" .
  from flush_Inr(3) [OF fl] obtain rows1 where v1: "view s1 = view (sess st) @ rows1"
    and m1: "map art rows1 = pending (sess st)" by blast
  show "\<exists>rows. view s1 = db @ rows \<and> map art rows = new_articles st"
  proof (intro exI [of _ "rows0 @ rows1"] conjI)
    show "view s1 = db @ rows0 @ rows1" by (simp add: v1 v0)
    show "map art (rows0 @ rows1) = new_articles st" by (simp add: m1 m0)
  qed
qed

lemma scan_item_inv:
  assumes inv: "scan_inv db st" and run: "scan_item e q it st = Normal st'"
  shows "scan_inv db st'"
proof (cases rule: scan_item_cases [of it e q st])
  case skip
  with run inv show ?thesis by simp
next
  case (flush_fails err)
  with run show ?thesis by simp
next
  case (known s1)
  from known(4) run have st': "st' = st\<lparr>sess := s1\<rparr>" by simp
  from flush_inv [OF inv known(2)] inv show ?thesis
    unfolding scan_inv_def st' by simp
next
  case (raised s1 err)
  with run show ?thesis by simp
next
  case (added s1 a)
  from added(5) run have st':
    "st' = \<lparr>sess = session_add a s1, new_articles = new_articles st @ [a]\<rparr>" by simp
  from flush_inv(3) [OF inv added(2)] obtain rows where v: "view s1 = db @ rows"
    and m: "map art rows = new_articles st" by blast
  have uv: "urls_of (view s1) = urls_of db @ map url (new_articles st)"
    by (simp add: v urls_of_append urls_of_rows [OF m])
  from added(3) added(4) uv have fresh:
    "url a \<notin> set (urls_of db)" "url a \<notin> set (map url (new_articles st))" by simp_all
  from inv have dist: "distinct (map url (new_articles st))"
    and disj: "set (map url (new_articles st)) \<inter> set (urls_of db) = {}"
    by (simp_all add: scan_inv_def)
  have c1: "database (sess st') = db"
    by (simp add: st' session_add_def flush_inv(1) [OF inv added(2)])
  have c2: "\<exists>rows. view (sess st') = db @ rows \<and> map art rows @ pending (sess st') = new_articles st'"
  proof (intro exI [of _ rows] conjI)
    show "view (sess st') = db @ rows" by (simp add: st' session_add_def v)
    show "map art rows @ pending (sess st') = new_articles st'"
      by (simp add: st' session_add_def m flush_inv(2) [OF inv added(2)])
  qed
  have c3: "distinct (map url (new_articles st'))" using dist fresh(2) by (simp add: st')
  have c4: "set (map url (new_articles st')) \<inter> set (urls_of db) = {}"
    using disj fresh(1) by (simp add: st')
  from c1 c2 c3 c4 show ?thesis unfolding scan_inv_def by (intro conjI)
qed

lemma scan_items_inv:
  "scan_inv db st \<Longrightarrow> scan_items e q its st = Normal st' \<Longrightarrow> scan_inv db st'"
proof (induction its arbitrary: st)
  case Nil
  then show ?case by simp
next
  case (Cons it its)
  show ?case
  proof (cases "scan_item e q it st")
    case (Normal st1)
    with Cons.prems(2) have "scan_items e q its st1 = Normal st'" by simp
    from Cons.IH [OF scan_item_inv [OF Cons.prems(1) Normal] this] show ?thesis .
  next
    case (Raised err st1)
    with Cons.prems(2) show ?thesis by simp
  qed
qed

lemma scan_queries_inv:
  "scan_inv db st \<Longrightarrow> scan_queries e d qs st = Some (Normal st') \<Longrightarrow> scan_inv db st'"
proof (induction qs arbitrary: st)
  case Nil
  then show ?case by simp
next
  case (Cons q qs)
  show ?case
  proof (cases "google_search (search_api e) q d")
    case None
    with Cons.prems(2) show ?thesis by simp
  next
    case (Some res)
    show ?thesis
    proof (cases res)
      case (Inl err)
      with Some Cons.prems(2) show ?thesis by simp
    next
      case (Inr found)
      obtain items calls where found: "found = (items, calls)" by (cases found)
      show ?thesis
      proof (cases "scan_items e q items st")
        case (Normal st1)
        with Some Inr found Cons.prems(2) have "scan_queries e d qs st1 = Some (Normal st')"
          by simp
        from Cons.IH [OF scan_items_inv [OF Cons.prems(1) Normal] this] show ?thesis .
      next
        case (Raised err st1)
        with Some Inr found Cons.prems(2) show ?thesis by simp
      qed
    qed
  qed
qed

lemma scan_domains_inv:
  "scan_inv db st \<Longrightarrow> scan_domains e ds st = Some (Normal st') \<Longrightarrow> scan_inv db st'"
proof (induction ds arbitrary: st)
  case Nil
  then show ?case by simp
next
  case (Cons d ds)
  show ?case
  proof (cases "scan_queries e d (queries_for d) st")
    case None
    with Cons.prems(2) show ?thesis by simp
  next
    case (Some out)
    show ?thesis
    proof (cases out)
      case (Normal st1)
      with Some Cons.prems(2) have "scan_domains e ds st1 = Some (Normal st')" by simp
      from Cons.IH [OF scan_queries_inv [OF Cons.prems(1) Some [unfolded Normal]] this]
      show ?thesis .
    next
      case (Raised err st1)
      with Some Cons.prems(2) show ?thesis by simp
    qed
  qed
qed

text \<open>No piece of the scan changes the committed table, however it ends.\<close>

lemma scan_item_db: "database (sess (out_state (scan_item e q it st))) = database (sess st)"
proof (cases rule: scan_item_cases [of it e q st])
  case skip
  then show ?thesis by simp
next
  case (flush_fails err)
  then show ?thesis by simp
next
  case (known s1)
  with flush_Inr(1) [OF known(2)] show ?thesis by simp
next
  case (raised s1 err)
  with flush_Inr(1) [OF raised(2)] show ?thesis by simp
next
  case (added s1 a)
  with flush_Inr(1) [OF added(2)] show ?thesis by (simp add: session_add_def)
qed

lemma scan_items_db: "database (sess (out_state (scan_items e q its st))) = database (sess st)"
proof (induction its arbitrary: st)
  case Nil
  show ?case by simp
next
  case (Cons it its)
  show ?case
  proof (cases "scan_item e q it st")
    case (Normal st1)
    from scan_item_db [of e q it st] Normal have "database (sess st1) = database (sess st)"
      by simp
    with Cons.IH [of st1] Normal show ?thesis by simp
  next
    case (Raised err st1)
    from scan_item_db [of e q it st] Raised show ?thesis by simp
  qed
qed

lemma scan_queries_db:
  "scan_queries e d qs st = Some out \<Longrightarrow> database (sess (out_state out)) = database (sess st)"
proof (induction qs arbitrary: st)
  case Nil
  then show ?case by auto
next
  case (Cons q qs)
  show ?case
  proof (cases "google_search (search_api e) q d")
    case None
    with Cons.prems show ?thesis by simp
  next
    case (Some res)
    show ?thesis
    proof (cases res)
      case (Inl err)
      with Some Cons.prems show ?thesis by auto
    next
      case (Inr found)
      obtain items calls where found: "found = (items, calls)" by (cases found)
      show ?thesis
      proof (cases "scan_items e q items st")
        case (Normal st1)
        from scan_items_db [of e q items st] Normal
        have d1: "database (sess st1) = database (sess st)" by simp
        from Normal Some Inr found Cons.prems have "scan_queries e d qs st1 = Some out" by simp
        from Cons.IH [OF this] d1 show ?thesis by simp
      next
        case (Raised err st1)
        from scan_items_db [of e q items st] Raised
        have d1: "database (sess st1) = database (sess st)" by simp
        from Raised Some Inr found Cons.prems have "out = Raised err st1" by simp
        with d1 show ?thesis by simp
      qed
    qed
  qed
qed

lemma scan_domains_db:
  "scan_domains e ds st = Some out \<Longrightarrow> database (sess (out_state out)) = database (sess st)"
proof (induction ds arbitrary: st)
  case Nil
  then show ?case by auto
next
  case (Cons d ds)
  show ?case
  proof (cases "scan_queries e d (queries_for d) st")
    case None
    with Cons.prems show ?thesis by simp
  next
    case (Some o1)
    from scan_queries_db [OF Some] have d1: "database (sess (out_state o1)) = database (sess st)" .
    show ?thesis
    proof (cases o1)
      case (Normal st1)
      with Some Cons.prems have "scan_domains e ds st1 = Some out" by simp
      from Cons.IH [OF this] d1 Normal show ?thesis by simp
    next
      case (Raised err st1)
      with Some Cons.prems have "out = Raised err st1" by simp
      with d1 Raised show ?thesis by simp
    qed
  qed
qed

text \<open>
  The two ways a whole scan can end: with a caught exception, the store as before and
  no email; or committed, the store extended by exactly the returned articles.
\<close>

lemma commit_Inr:
  assumes "commit up now s = Inr s'"
  obtains s1 where "up" "flush now s = Inr s1" "s' = s1\<lparr>database := view s1\<rparr>"
proof (cases "flush now s")
  case (Inl err)
  with assms show ?thesis by (simp add: commit_def)
next
  case (Inr s1)
  with assms have "up" "s' = s1\<lparr>database := view s1\<rparr>"
    by (simp_all add: commit_def split: if_splits)
  with Inr that [of s1] show ?thesis by blast
qed

lemma scan_inv_init: "scan_inv db \<lparr>sess = open_session db, new_articles = []\<rparr>"
  by (simp add: scan_inv_def open_session_def)

lemma run_scan_outcome:
  assumes run: "run_scan_and_save e b db = Some r"
  obtains (failed) err where "failure r = Some err" "store r = db" "notifier_calls r = []"
  | (committed) rows where "failure r = None" "store r = db @ rows"
      "map art rows = returned r" "distinct (map url (returned r))"
      "set (map url (returned r)) \<inter> set (urls_of db) = {}"
      "notifier_calls r = (if b \<and> returned r \<noteq> [] then [(returned r, manual_subject)] else [])"
      "store_up e"
proof -
  let ?init = "\<lparr>sess = open_session db, new_articles = []\<rparr>"
  have db0: "database (sess ?init) = db" by (simp add: open_session_def)
  show ?thesis
  proof (cases "scan_domains e (map fst NEWS_MAP) ?init")
    case None
    with run show ?thesis by (simp add: run_scan_and_save_def)
  next
    case (Some out)
    from scan_domains_db [OF Some] db0
    have dbo: "database (sess (out_state out)) = db" by simp
    show ?thesis
    proof (cases out)
      case (Raised err st)
      with Some run have r: "r = scan_failed err st []" by (simp add: run_scan_and_save_def)
      from dbo Raised have "database (sess st) = db" by simp
      then have "store r = db" by (simp add: r scan_failed_def rollback_def)
      moreover have "failure r = Some err" "notifier_calls r = []"
        by (simp_all add: r scan_failed_def)
      ultimately show ?thesis using failed by blast
    next
      case (Normal st)
      from dbo Normal have dst: "database (sess st) = db" by simp
      from scan_domains_inv [OF scan_inv_init Some [unfolded Normal]]
      have inv: "scan_inv db st" .
      show ?thesis
      proof (cases "commit (store_up e) (utcnow e) (sess st)")
        case (Inl err)
        with Some Normal run have r: "r = scan_failed err st []"
          by (simp add: run_scan_and_save_def)
        from dst have "store r = db" by (simp add: r scan_failed_def rollback_def)
        moreover have "failure r = Some err" "notifier_calls r = []"
          by (simp_all add: r scan_failed_def)
        ultimately show ?thesis using failed by blast
      next
        case (Inr s')
        from commit_Inr [OF Inr] obtain s1 where up: "store_up e"
          and fl: "flush (utcnow e) (sess st) = Inr s1"
          and s': "s' = s1\<lparr>database := view s1\<rparr>" by blast
        from flush_inv(3) [OF inv fl] obtain rows where v: "view s1 = db @ rows"
          and m: "map art rows = new_articles st" by blast
        have ds': "database s' = db @ rows" by (simp add: s' v)
        from inv have dist: "distinct (map url (new_articles st))"
          and disj: "set (map url (new_articles st)) \<inter> set (urls_of db) = {}"
          by (simp_all add: scan_inv_def)
        obtain rep where rep: "send_email e (new_articles st) manual_subject = Inr rep"
          using send_email_Inr by blast
        have all: "returned r = new_articles st \<and> store r = db @ rows \<and> failure r = None \<and>
                notifier_calls r =
                (if b \<and> new_articles st \<noteq> [] then [(new_articles st, manual_subject)] else [])"
          proof (cases "b \<and> new_articles st \<noteq> []")
            case True
            with run Some Normal Inr rep have
              "r = \<lparr>returned = new_articles st, store = database s',
                    notifier_calls = [(new_articles st, manual_subject)],
                    smtp_log = smtp_calls rep, failure = None\<rparr>"
              by (simp add: run_scan_and_save_def)
            with True ds' show ?thesis by simp
          next
            case False
            with run Some Normal Inr have
              "r = \<lparr>returned = new_articles st, store = database s',
                    notifier_calls = [], smtp_log = [], failure = None\<rparr>"
              by (simp add: run_scan_and_save_def)
            with False ds' show ?thesis by simp
          qed
        from all have r1: "returned r = new_articles st" and r2: "store r = db @ rows"
          and r3: "failure r = None"
          and r4: "notifier_calls r =
                (if b \<and> new_articles st \<noteq> [] then [(new_articles st, manual_subject)] else [])"
          by simp_all
        from r3 r2 m [folded r1] dist [folded r1] disj [folded r1] r4 [folded r1] up
        show ?thesis by (rule committed)
      qed
    qed
  qed
qed



text \<open>
  C6, as amended. After a manual trigger the store is the old table followed by the
  rows of this scan. \<open>send_email\<close> is called exactly when this scan added rows, once,
  with the articles of exactly those rows, which are the returned batch, and with the
  subject \<open>Cargills Press Monitoring \<endash> Manual Trigger\<close> (the dash as its three UTF-8
  bytes); when nothing was added, also because the scan failed and was rolled back,
  it is not called.
\<close>

theorem manual_trigger_notifies_batch:
  "run_scan e db = Some (r, n, listing) \<longrightarrow>
     take (length db) (store r) = db
     \<and> notifier_calls r =
         (if store r = db then []
          else [(map art (drop (length db) (store r)), manual_subject)])
     \<and> (store r \<noteq> db \<longrightarrow>
          returned r = map art (drop (length db) (store r)) \<and> failure r = None)
     \<and> manual_subject =
         ''Cargills Press Monitoring '' @ [CHR 0xE2, CHR 0x80, CHR 0x93] @ '' Manual Trigger''"
proof
  assume "run_scan e db = Some (r, n, listing)"
  then have run: "run_scan_and_save e True db = Some r"
    by (auto simp: run_scan_def split: option.splits)
  have subj: "manual_subject =
         ''Cargills Press Monitoring '' @ [CHR 0xE2, CHR 0x80, CHR 0x93] @ '' Manual Trigger''"
    by (simp add: manual_subject_def subject_prefix_def)
  from run show "take (length db) (store r) = db
     \<and> notifier_calls r =
         (if store r = db then []
          else [(map art (drop (length db) (store r)), manual_subject)])
     \<and> (store r \<noteq> db \<longrightarrow>
          returned r = map art (drop (length db) (store r)) \<and> failure r = None)
     \<and> manual_subject =
         ''Cargills Press Monitoring '' @ [CHR 0xE2, CHR 0x80, CHR 0x93] @ '' Manual Trigger''"
  proof (cases rule: run_scan_outcome)
    case (failed err)
    with subj show ?thesis by simp
  next
    case (committed rows)
    have t: "take (length db) (store r) = db" by (simp add: committed(2))
    have d: "drop (length db) (store r) = rows" by (simp add: committed(2))
    have e: "(store r = db) = (rows = [])" by (simp add: committed(2))
    have n: "(returned r = []) = (rows = [])" using committed(3) by auto
    from t d e n committed(1,3,6) subj show ?thesis by simp
  qed
qed

text \<open>
  The theorem of C6 on a first manual scan that finds one article, and on a second
  one that finds it stored.
\<close>

theorem manual_trigger_notifies_batch_witness:
  "run_scan (sample_env api_one) [] =
     Some (\<lparr>returned = [sample_article], store = [sample_row],
             notifier_calls = [([sample_article], manual_subject)],
             smtp_log = [\<lparr>msg_subject = manual_subject, msg_from = ''me@example.com'',
                          msg_to = ''me@example.com'',
                          msg_rows = [html_row sample_article]\<rparr>],
             failure = None\<rparr>, 1, [sample_row])
   \<and> run_scan (sample_env api_one) [sample_row] =
     Some (\<lparr>returned = [], store = [sample_row], notifier_calls = [], smtp_log = [],
             failure = None\<rparr>, 0, [sample_row])
   \<and> [([sample_article], manual_subject)]
       = [(map art (drop (length ([] :: row list)) [sample_row]), manual_subject)]"
proof -
  let ?r1 = "\<lparr>returned = [sample_article], store = [sample_row],
             notifier_calls = [([sample_article], manual_subject)],
             smtp_log = [\<lparr>msg_subject = manual_subject, msg_from = ''me@example.com'',
                          msg_to = ''me@example.com'',
                          msg_rows = [html_row sample_article]\<rparr>],
             failure = None\<rparr>"
  have a: "run_scan (sample_env api_one) [] = Some (?r1, 1, [sample_row])" by code_simp
  have b: "run_scan (sample_env api_one) [sample_row] =
     Some (\<lparr>returned = [], store = [sample_row], notifier_calls = [], smtp_log = [],
             failure = None\<rparr>, 0, [sample_row])" by code_simp
  note m = manual_trigger_notifies_batch [of "sample_env api_one" "[]" ?r1 1 "[sample_row]",
      THEN mp, OF a]
  from m [THEN conjunct2, THEN conjunct1]
  have c: "[([sample_article], manual_subject)]
       = [(map art (drop (length ([] :: row list)) [sample_row]), manual_subject)]"
    by simp
  show ?thesis by (rule conjI [OF a conjI [OF b c]])
qed

text \<open>
  C6 as the specification words it fails on the subject: the notifier is called with
  the 44 bytes of \<open>Cargills Press Monitoring \<endash> Manual Trigger\<close>, not with
  \<open>Manual Trigger\<close>.
\<close>

theorem manual_trigger_subject_counterexample:
  "run_scan (sample_env api_one) [] =
     Some (\<lparr>returned = [sample_article], store = [sample_row],
             notifier_calls = [([sample_article], manual_subject)],
             smtp_log = [\<lparr>msg_subject = manual_subject, msg_from = ''me@example.com'',
                          msg_to = ''me@example.com'',
                          msg_rows = [html_row sample_article]\<rparr>],
             failure = None\<rparr>, 1, [sample_row])
   \<and> manual_subject \<noteq> ''Manual Trigger''
   \<and> length manual_subject = 44"
  by code_simp

section \<open>Properties of the daily job\<close>

text \<open>A scan without the immediate-notify flag calls \<open>send_email\<close> on no path.\<close>

lemma silent_scan:
  assumes "run_scan_and_save e False db = Some r"
  shows "notifier_calls r = []" and "smtp_log r = []"
  using assms
  by (auto simp: run_scan_and_save_def scan_failed_def
      split: option.splits outcome.splits sum.splits)

text \<open>
  The window query returns the rows of the window, each as often as the table has it,
  latest first, and on rows created 30, 23 and 1 hours before \<open>T\<close> the last two.
\<close>

lemma recent_articles_mset:
  "mset (recent_articles now tbl) =
     mset (filter (\<lambda>x. now - one_day \<le> created_at x \<and> created_at x \<le> now) tbl)"
  by (simp add: recent_articles_def)

lemma recent_articles_sorted:
  "sorted_wrt (\<lambda>a b. created_at b \<le> created_at a) (recent_articles now tbl)"
proof -
  let ?xs = "sort_key created_at
      (filter (\<lambda>x. now - one_day \<le> created_at x \<and> created_at x \<le> now) tbl)"
  have "sorted (map created_at ?xs)" by simp
  then have "sorted_wrt (\<lambda>a b. created_at a \<le> created_at b) ?xs"
    by (simp add: sorted_map)
  then show ?thesis
    by (simp add: recent_articles_def sorted_wrt_rev)
qed

lemma recent_articles_sample:
  "recent_articles T
     [\<lparr>rid = 1, created_at = T - hours 30, art = a\<rparr>,
      \<lparr>rid = 2, created_at = T - hours 23, art = b\<rparr>,
      \<lparr>rid = 3, created_at = T - hours 1, art = c\<rparr>]
   = [\<lparr>rid = 3, created_at = T - hours 1, art = c\<rparr>,
      \<lparr>rid = 2, created_at = T - hours 23, art = b\<rparr>]"
  by (simp add: recent_articles_def one_day_def hours_def)

text \<open>
  C5, as amended. The daily job returns whenever its scan returns, and the scan calls
  the notifier on no path. The window it queries holds exactly the rows of the store,
  as the scan left it, whose \<open>created_at\<close> lies between one day before \<open>now\<close> and \<open>now\<close>,
  both ends included, ordered latest first; of rows created at \<open>T - 30h\<close>, \<open>T - 23h\<close>
  and \<open>T - 1h\<close> it holds the last two, the latest first. When the window is not
  empty, \<open>send_email\<close> is called once, with the articles of the window in that order
  and the subject \<open>Cargills Press Monitoring \<endash> Daily Report (Last 24 hours)\<close> (the
  dash as its three UTF-8 bytes); when it is empty, \<open>send_email\<close> is not called, no
  message reaches the mail server, and one line is printed.
\<close>

theorem daily_job_window:
  "(run_scan_and_save e False db = Some r \<longrightarrow>
      (\<exists>d. daily_job e now db = Some (Inr d)
         \<and> daily_store d = store r
         \<and> mset (daily_window d) =
             mset (filter (\<lambda>x. now - one_day \<le> created_at x \<and> created_at x \<le> now) (store r))
         \<and> sorted_wrt (\<lambda>a b. created_at b \<le> created_at a) (daily_window d)
         \<and> daily_notifier_calls d =
             (if daily_window d = [] then []
              else [(map art (daily_window d), daily_subject)])
         \<and> (if daily_window d = []
            then daily_smtp_log d = []
               \<and> daily_printed d = [''No new articles in last 24 hours; skipping daily email.'']
            else \<exists>rep. send_email e (map art (daily_window d)) daily_subject = Inr rep
                      \<and> daily_smtp_log d = smtp_calls rep \<and> daily_printed d = printed rep)))
   \<and> (run_scan_and_save e False db = None \<longrightarrow> daily_job e now db = None)
   \<and> recent_articles T
       [\<lparr>rid = 1, created_at = T - hours 30, art = a1\<rparr>,
        \<lparr>rid = 2, created_at = T - hours 23, art = a2\<rparr>,
        \<lparr>rid = 3, created_at = T - hours 1, art = a3\<rparr>]
     = [\<lparr>rid = 3, created_at = T - hours 1, art = a3\<rparr>,
        \<lparr>rid = 2, created_at = T - hours 23, art = a2\<rparr>]
   \<and> one_day = hours 24
   \<and> daily_subject =
       ''Cargills Press Monitoring '' @ [CHR 0xE2, CHR 0x80, CHR 0x93]
         @ '' Daily Report (Last 24 hours)''"
proof (intro conjI impI)
  assume run: "run_scan_and_save e False db = Some r"
  let ?w = "recent_articles now (store r)"
  note quiet = silent_scan [OF run]
  obtain rep where rep: "send_email e (map art ?w) daily_subject = Inr rep"
    using send_email_Inr by blast
  show "\<exists>d. daily_job e now db = Some (Inr d)
         \<and> daily_store d = store r
         \<and> mset (daily_window d) =
             mset (filter (\<lambda>x. now - one_day \<le> created_at x \<and> created_at x \<le> now) (store r))
         \<and> sorted_wrt (\<lambda>a b. created_at b \<le> created_at a) (daily_window d)
         \<and> daily_notifier_calls d =
             (if daily_window d = [] then []
              else [(map art (daily_window d), daily_subject)])
         \<and> (if daily_window d = []
            then daily_smtp_log d = []
               \<and> daily_printed d = [''No new articles in last 24 hours; skipping daily email.'']
            else \<exists>rep. send_email e (map art (daily_window d)) daily_subject = Inr rep
                      \<and> daily_smtp_log d = smtp_calls rep \<and> daily_printed d = printed rep)"
  proof (cases "?w = []")
    case True
    let ?d = "\<lparr>daily_store = store r, daily_window = ?w,
                daily_notifier_calls = notifier_calls r, daily_smtp_log = smtp_log r,
                daily_printed = [''No new articles in last 24 hours; skipping daily email.'']\<rparr>"
    have j: "daily_job e now db = Some (Inr ?d)"
      using run True by (simp add: daily_job_def Let_def)
    show ?thesis
    proof (intro exI [of _ ?d] conjI)
      show "daily_job e now db = Some (Inr ?d)" by (rule j)
      show "daily_store ?d = store r" by simp
      show "mset (daily_window ?d) =
             mset (filter (\<lambda>x. now - one_day \<le> created_at x \<and> created_at x \<le> now) (store r))"
        by (simp add: recent_articles_mset)
      show "sorted_wrt (\<lambda>a b. created_at b \<le> created_at a) (daily_window ?d)"
        by (simp add: recent_articles_sorted)
      show "daily_notifier_calls ?d =
             (if daily_window ?d = [] then []
              else [(map art (daily_window ?d), daily_subject)])"
        using True quiet by simp
      show "if daily_window ?d = []
            then daily_smtp_log ?d = []
               \<and> daily_printed ?d = [''No new articles in last 24 hours; skipping daily email.'']
            else \<exists>rep. send_email e (map art (daily_window ?d)) daily_subject = Inr rep
                      \<and> daily_smtp_log ?d = smtp_calls rep \<and> daily_printed ?d = printed rep"
        using True quiet by simp
    qed
  next
    case False
    let ?d = "\<lparr>daily_store = store r, daily_window = ?w,
                daily_notifier_calls = notifier_calls r @ [(map art ?w, daily_subject)],
                daily_smtp_log = smtp_log r @ smtp_calls rep,
                daily_printed = printed rep\<rparr>"
    have j: "daily_job e now db = Some (Inr ?d)"
      using run False rep by (simp add: daily_job_def Let_def)
    show ?thesis
    proof (intro exI [of _ ?d] conjI)
      show "daily_job e now db = Some (Inr ?d)" by (rule j)
      show "daily_store ?d = store r" by simp
      show "mset (daily_window ?d) =
             mset (filter (\<lambda>x. now - one_day \<le> created_at x \<and> created_at x \<le> now) (store r))"
        by (simp add: recent_articles_mset)
      show "sorted_wrt (\<lambda>a b. created_at b \<le> created_at a) (daily_window ?d)"
        by (simp add: recent_articles_sorted)
      show "daily_notifier_calls ?d =
             (if daily_window ?d = [] then []
              else [(map art (daily_window ?d), daily_subject)])"
        using False quiet by simp
      show "if daily_window ?d = []
            then daily_smtp_log ?d = []
               \<and> daily_printed ?d = [''No new articles in last 24 hours; skipping daily email.'']
            else \<exists>rep. send_email e (map art (daily_window ?d)) daily_subject = Inr rep
                      \<and> daily_smtp_log ?d = smtp_calls rep \<and> daily_printed ?d = printed rep"
        using False quiet rep by simp
    qed
  qed
next
  assume "run_scan_and_save e False db = None"
  then show "daily_job e now db = None" by (simp add: daily_job_def)
next
  show "recent_articles T
       [\<lparr>rid = 1, created_at = T - hours 30, art = a1\<rparr>,
        \<lparr>rid = 2, created_at = T - hours 23, art = a2\<rparr>,
        \<lparr>rid = 3, created_at = T - hours 1, art = a3\<rparr>]
     = [\<lparr>rid = 3, created_at = T - hours 1, art = a3\<rparr>,
        \<lparr>rid = 2, created_at = T - hours 23, art = a2\<rparr>]"
    by (rule recent_articles_sample)
next
  show "one_day = hours 24" by (simp add: one_day_def hours_def)
next
  show "daily_subject =
       ''Cargills Press Monitoring '' @ [CHR 0xE2, CHR 0x80, CHR 0x93]
         @ '' Daily Report (Last 24 hours)''"
    by (simp add: daily_subject_def subject_prefix_def)
qed

text \<open>
  The theorem of C5 on a daily job whose scan stores one article at time 0: read 23
  hours later the window holds it and the digest is sent; read 30 hours later the
  window is empty and the email is skipped.
\<close>

theorem daily_job_window_witness:
  "run_scan_and_save (sample_env api_one) False [] =
     Some \<lparr>returned = [sample_article], store = [sample_row], notifier_calls = [],
           smtp_log = [], failure = None\<rparr>
   \<and> daily_job (sample_env api_one) (hours 23) [] = Some (Inr daily_sample)
   \<and> daily_job (sample_env api_one) (hours 30) [] =
       Some (Inr \<lparr>daily_store = [sample_row], daily_window = [],
                  daily_notifier_calls = [], daily_smtp_log = [],
                  daily_printed = [''No new articles in last 24 hours; skipping daily email.'']\<rparr>)
   \<and> (\<exists>d. daily_job (sample_env api_one) (hours 23) [] = Some (Inr d)
          \<and> daily_notifier_calls d = [(map art (daily_window d), daily_subject)])"
proof -
  let ?r = "\<lparr>returned = [sample_article], store = [sample_row], notifier_calls = [],
           smtp_log = [], failure = None\<rparr>"
  have run: "run_scan_and_save (sample_env api_one) False [] = Some ?r" by code_simp
  have j1: "daily_job (sample_env api_one) (hours 23) [] = Some (Inr daily_sample)"
    by code_simp
  have j2: "daily_job (sample_env api_one) (hours 30) [] =
       Some (Inr \<lparr>daily_store = [sample_row], daily_window = [],
                  daily_notifier_calls = [], daily_smtp_log = [],
                  daily_printed = [''No new articles in last 24 hours; skipping daily email.'']\<rparr>)"
    by code_simp
  note m = daily_job_window [of "sample_env api_one" "[]" ?r "hours 23", THEN conjunct1,
      THEN mp, OF run]
  then obtain d where d: "daily_job (sample_env api_one) (hours 23) [] = Some (Inr d)"
    and n: "daily_notifier_calls d =
             (if daily_window d = [] then []
              else [(map art (daily_window d), daily_subject)])"
    by blast
  from d j1 have "d = daily_sample" by simp
  then have "daily_window d \<noteq> []" by (simp add: daily_sample_def)
  with n have "daily_notifier_calls d = [(map art (daily_window d), daily_subject)]" by simp
  with d have e: "\<exists>d. daily_job (sample_env api_one) (hours 23) [] = Some (Inr d)
          \<and> daily_notifier_calls d = [(map art (daily_window d), daily_subject)]"
    by (intro exI [of _ d] conjI)
  show ?thesis by (rule conjI [OF run conjI [OF j1 conjI [OF j2 e]]])
qed

text \<open>
  C5 as the specification words it fails on the subject: the notifier is called with
  the 58 bytes of \<open>Cargills Press Monitoring \<endash> Daily Report (Last 24 hours)\<close>, not
  with \<open>Daily Report (Last 24 hours)\<close>.
\<close>

theorem daily_job_subject_counterexample:
  "daily_job (sample_env api_one) (hours 23) [] = Some (Inr daily_sample)
   \<and> daily_notifier_calls daily_sample = [([sample_article], daily_subject)]
   \<and> daily_subject \<noteq> ''Daily Report (Last 24 hours)''
   \<and> length daily_subject = 58"
  by code_simp

section \<open>Two scans back to back\<close>

text \<open>
  C3, at a failing input. The upstream answers are the same in both scans: a good
  item followed by one whose \<open>metatags\<close> is empty. The first scan raises on the second
  item and is rolled back, so the good item is not stored; the second scan meets it
  as new again, raises again, and returns the list with that article, not the empty
  list. The same happens when the second request of each scan fails.
\<close>

theorem second_scan_returns_rolled_back:
  "run_twice (sample_env api_malformed) False [] =
     Some (\<lparr>returned = [sample_article], store = [], notifier_calls = [], smtp_log = [],
             failure = Some IndexError\<rparr>,
           \<lparr>returned = [sample_article], store = [], notifier_calls = [], smtp_log = [],
             failure = Some IndexError\<rparr>)
   \<and> run_twice (sample_env api_then_fail) True [] =
     Some (\<lparr>returned = [sample_article], store = [], notifier_calls = [], smtp_log = [],
             failure = Some NetworkError\<rparr>,
           \<lparr>returned = [sample_article], store = [], notifier_calls = [], smtp_log = [],
             failure = Some NetworkError\<rparr>)"
  by code_simp

text \<open>
  A scan that ends normally knows, at its end, the link of every item it was given:
  the set of known URLs only grows.
\<close>

lemma linked_mono: "S \<subseteq> S' \<Longrightarrow> linked S it \<Longrightarrow> linked S' it"
  by (auto simp: linked_def)

lemma covered_mono: "S \<subseteq> S' \<Longrightarrow> covered f S d qs \<Longrightarrow> covered f S' d qs"
  unfolding covered_def by (meson linked_mono)

lemma flush_seen:
  assumes "flush now s = Inr s'"
  shows "seen s' = seen s"
proof -
  from flush_Inr(3) [OF assms] obtain rows where
    v: "view s' = view s @ rows" and m: "map art rows = pending s" by blast
  from urls_of_rows [OF m] have u: "urls_of rows = map url (pending s)" .
  from flush_Inr(2) [OF assms] have p: "pending s' = []" .
  show ?thesis by (simp add: seen_def v p urls_of_append u)
qed

lemma scan_item_seen:
  assumes "scan_item e q it st = Normal st'"
  shows "seen (sess st) \<subseteq> seen (sess st')" and "linked (seen (sess st')) it"
proof -
  have "seen (sess st) \<subseteq> seen (sess st') \<and> linked (seen (sess st')) it"
  proof (cases rule: scan_item_cases [of it e q st])
    case skip
    with assms show ?thesis by (simp add: linked_def)
  next
    case (flush_fails err)
    with assms show ?thesis by simp
  next
    case (known s1)
    from known(4) assms have st': "st' = st\<lparr>sess := s1\<rparr>" by simp
    from flush_seen [OF known(2)] have s: "seen s1 = seen (sess st)" .
    from known(3) have "link_or_empty it \<in> seen s1" by (simp add: seen_def)
    with s st' show ?thesis by (simp add: linked_def)
  next
    case (raised s1 err)
    with assms show ?thesis by simp
  next
    case (added s1 a)
    from added(5) assms have st': "sess st' = session_add a s1" by auto
    from flush_seen [OF added(2)] have s: "seen s1 = seen (sess st)" .
    have "seen (session_add a s1) = insert (url a) (seen s1)"
      by (simp add: seen_def session_add_def)
    with st' s added(4) show ?thesis by (auto simp: linked_def)
  qed
  then show "seen (sess st) \<subseteq> seen (sess st')" and "linked (seen (sess st')) it"
    by simp_all
qed

lemma scan_items_seen:
  "scan_items e q its st = Normal st' \<Longrightarrow>
     seen (sess st) \<subseteq> seen (sess st') \<and> (\<forall>it \<in> set its. linked (seen (sess st')) it)"
proof (induction its arbitrary: st)
  case Nil
  then show ?case by simp
next
  case (Cons it its)
  show ?case
  proof (cases "scan_item e q it st")
    case (Raised err s)
    with Cons.prems show ?thesis by simp
  next
    case (Normal s)
    with Cons.prems have rest: "scan_items e q its s = Normal st'" by simp
    from Cons.IH [OF rest] have a: "seen (sess s) \<subseteq> seen (sess st')"
      and b: "\<forall>it \<in> set its. linked (seen (sess st')) it" by simp_all
    from scan_item_seen [OF Normal] have c: "seen (sess st) \<subseteq> seen (sess s)"
      and d: "linked (seen (sess s)) it" by simp_all
    from linked_mono [OF a d] have "linked (seen (sess st')) it" .
    with a b c show ?thesis by auto
  qed
qed

lemma covered_Nil: "covered f S d []"
  by (simp add: covered_def)

lemma covered_Cons:
  "covered f S d (q # qs) \<longleftrightarrow>
     (\<exists>items calls. google_search f q d = Some (Inr (items, calls))
        \<and> (\<forall>it \<in> set items. linked S it))
     \<and> covered f S d qs"
  by (simp add: covered_def)

lemma scan_queries_seen:
  "scan_queries e d qs st = Some (Normal st') \<Longrightarrow>
     seen (sess st) \<subseteq> seen (sess st') \<and> covered (search_api e) (seen (sess st')) d qs"
proof (induction qs arbitrary: st)
  case Nil
  then show ?case by (simp add: covered_Nil)
next
  case (Cons q qs)
  from Cons.prems obtain items calls where
    g: "google_search (search_api e) q d = Some (Inr (items, calls))"
    by (auto split: option.splits sum.splits)
  show ?case
  proof (cases "scan_items e q items st")
    case (Raised err s)
    with Cons.prems g show ?thesis by simp
  next
    case (Normal s)
    with Cons.prems g have rest: "scan_queries e d qs s = Some (Normal st')" by simp
    from Cons.IH [OF rest] have a: "seen (sess s) \<subseteq> seen (sess st')"
      and b: "covered (search_api e) (seen (sess st')) d qs" by simp_all
    from scan_items_seen [OF Normal] have c: "seen (sess st) \<subseteq> seen (sess s)"
      and i: "\<forall>it \<in> set items. linked (seen (sess s)) it" by simp_all
    from i a have i': "\<forall>it \<in> set items. linked (seen (sess st')) it"
      by (meson linked_mono)
    from g i' b have "covered (search_api e) (seen (sess st')) d (q # qs)"
      unfolding covered_Cons by blast
    with a c show ?thesis by auto
  qed
qed

lemma scan_domains_seen:
  "scan_domains e ds st = Some (Normal st') \<Longrightarrow>
     seen (sess st) \<subseteq> seen (sess st')
     \<and> (\<forall>d \<in> set ds. covered (search_api e) (seen (sess st')) d (queries_for d))"
proof (induction ds arbitrary: st)
  case Nil
  then show ?case by simp
next
  case (Cons d ds)
  from Cons.prems obtain s where
    q: "scan_queries e d (queries_for d) st = Some (Normal s)"
    and rest: "scan_domains e ds s = Some (Normal st')"
    by (auto split: option.splits outcome.splits)
  from Cons.IH [OF rest] have a: "seen (sess s) \<subseteq> seen (sess st')"
    and b: "\<forall>d \<in> set ds. covered (search_api e) (seen (sess st')) d (queries_for d)"
    by simp_all
  from scan_queries_seen [OF q] have c: "seen (sess st) \<subseteq> seen (sess s)"
    and i: "covered (search_api e) (seen (sess s)) d (queries_for d)" by simp_all
  from covered_mono [OF a i] have "covered (search_api e) (seen (sess st')) d (queries_for d)" .
  with a b c show ?case by auto
qed

text \<open>With nothing pending and every link stored, the scan changes nothing.\<close>

lemma scan_item_skip:
  assumes p: "pending (sess st) = []" and l: "linked (set (urls_of (view (sess st)))) it"
  shows "scan_item e q it st = Normal st"
proof (cases "link_or_empty it = []")
  case True
  then show ?thesis by (simp add: scan_item_def)
next
  case False
  with l have inn: "link_or_empty it \<in> set (urls_of (view (sess st)))"
    by (simp add: linked_def)
  then have f: "find (\<lambda>r. url (art r) = link_or_empty it) (view (sess st)) \<noteq> None"
    by (simp add: find_None_url)
  have q: "query_first_by_url (utcnow e) (link_or_empty it) (sess st) =
      Inr (sess st, find (\<lambda>r. url (art r) = link_or_empty it) (view (sess st)))"
    by (simp add: query_first_by_url_def flush_nil [OF p])
  from False f q show ?thesis by (simp add: scan_item_def Let_def)
qed

lemma scan_items_skip:
  assumes p: "pending (sess st) = []"
    and l: "\<forall>it \<in> set its. linked (set (urls_of (view (sess st)))) it"
  shows "scan_items e q its st = Normal st"
  using l
proof (induction its)
  case Nil
  then show ?case by simp
next
  case (Cons it its)
  then have "linked (set (urls_of (view (sess st)))) it" by simp
  from scan_item_skip [OF p this] have "scan_item e q it st = Normal st" .
  with Cons show ?case by simp
qed

lemma scan_queries_skip:
  assumes p: "pending (sess st) = []"
    and c: "covered (search_api e) (set (urls_of (view (sess st)))) d qs"
  shows "scan_queries e d qs st = Some (Normal st)"
  using c
proof (induction qs)
  case Nil
  then show ?case by simp
next
  case (Cons q qs)
  from Cons.prems obtain items calls where
    g: "google_search (search_api e) q d = Some (Inr (items, calls))"
    and i: "\<forall>it \<in> set items. linked (set (urls_of (view (sess st)))) it"
    and r: "covered (search_api e) (set (urls_of (view (sess st)))) d qs"
    unfolding covered_Cons by blast
  from scan_items_skip [OF p i] have "scan_items e q items st = Normal st" .
  with g Cons.IH [OF r] show ?case by simp
qed

lemma scan_domains_skip:
  assumes p: "pending (sess st) = []"
    and c: "\<forall>d \<in> set ds. covered (search_api e) (set (urls_of (view (sess st)))) d (queries_for d)"
  shows "scan_domains e ds st = Some (Normal st)"
  using c
proof (induction ds)
  case Nil
  then show ?case by simp
next
  case (Cons d ds)
  then have "covered (search_api e) (set (urls_of (view (sess st)))) d (queries_for d)" by simp
  from scan_queries_skip [OF p this]
  have "scan_queries e d (queries_for d) st = Some (Normal st)" .
  with Cons show ?case by simp
qed

text \<open>
  When the first scan commits, the second one finds every link stored: it returns the
  empty list, calls no notifier and leaves the store as it is.
\<close>

lemma run_scan_committed:
  assumes run: "run_scan_and_save e b db = Some r" and ok: "failure r = None"
  obtains st s1 where
    "scan_domains e (map fst NEWS_MAP) \<lparr>sess = open_session db, new_articles = []\<rparr>
       = Some (Normal st)"
    "flush (utcnow e) (sess st) = Inr s1" "store_up e" "store r = view s1"
proof -
  let ?init = "\<lparr>sess = open_session db, new_articles = []\<rparr>"
  from run obtain out where sd: "scan_domains e (map fst NEWS_MAP) ?init = Some out"
    by (cases "scan_domains e (map fst NEWS_MAP) ?init") (simp_all add: run_scan_and_save_def)
  show ?thesis
  proof (cases out)
    case (Raised err st)
    with run sd have "r = scan_failed err st []" by (simp add: run_scan_and_save_def)
    with ok show ?thesis by (simp add: scan_failed_def)
  next
    case (Normal st)
    note sd' = sd [unfolded Normal]
    show ?thesis
    proof (cases "commit (store_up e) (utcnow e) (sess st)")
      case (Inl err)
      with run sd' have "r = scan_failed err st []" by (simp add: run_scan_and_save_def)
      with ok show ?thesis by (simp add: scan_failed_def)
    next
      case (Inr s')
      from commit_Inr [OF Inr] obtain s1 where up: "store_up e"
        and fl: "flush (utcnow e) (sess st) = Inr s1" and s': "s' = s1\<lparr>database := view s1\<rparr>"
        by blast
      obtain rep where rep: "send_email e (new_articles st) manual_subject = Inr rep"
        using send_email_Inr by blast
      have "store r = database s'"
      proof (cases "b \<and> new_articles st \<noteq> []")
        case True
        with run sd' Inr rep show ?thesis by (auto simp: run_scan_and_save_def)
      next
        case False
        with run sd' Inr show ?thesis by (auto simp: run_scan_and_save_def)
      qed
      with s' have "store r = view s1" by simp
      with sd' fl up that show ?thesis by blast
    qed
  qed
qed

lemma second_scan_after_commit:
  assumes run: "run_scan_and_save e b db = Some r1" and ok: "failure r1 = None"
    and same: "search_api e' = search_api e"
  shows "run_scan_and_save e' b' (store r1) =
           Some \<lparr>returned = [], store = store r1, notifier_calls = [], smtp_log = [],
                 failure = (if store_up e' then None else Some OperationalError)\<rparr>"
proof -
  from run ok obtain st s1 where
    sd: "scan_domains e (map fst NEWS_MAP) \<lparr>sess = open_session db, new_articles = []\<rparr>
       = Some (Normal st)"
    and fl: "flush (utcnow e) (sess st) = Inr s1" and st: "store r1 = view s1"
    by (rule run_scan_committed)
  from scan_domains_seen [OF sd]
  have cov: "\<forall>d \<in> set (map fst NEWS_MAP).
      covered (search_api e) (seen (sess st)) d (queries_for d)" by simp
  from flush_seen [OF fl] flush_Inr(2) [OF fl]
  have "seen (sess st) = set (urls_of (view s1))" by (simp add: seen_def)
  with st have sn: "seen (sess st) = set (urls_of (store r1))" by simp
  let ?init = "\<lparr>sess = open_session (store r1), new_articles = []\<rparr>"
  have p: "pending (sess ?init) = []" by (simp add: open_session_def)
  have v: "view (sess ?init) = store r1" by (simp add: open_session_def)
  have c: "\<forall>d \<in> set (map fst NEWS_MAP).
      covered (search_api e') (set (urls_of (view (sess ?init)))) d (queries_for d)"
    using cov unfolding sn v same .
  from scan_domains_skip [OF p c]
  have sd2: "scan_domains e' (map fst NEWS_MAP) ?init = Some (Normal ?init)" .
  have fl2: "flush (utcnow e') (open_session (store r1)) = Inr (open_session (store r1))"
    by (rule flush_nil) (simp add: open_session_def)
  show ?thesis
  proof (cases "store_up e'")
    case True
    with fl2 have "commit (store_up e') (utcnow e') (sess ?init) =
        Inr (open_session (store r1))"
      by (simp add: commit_def open_session_def)
    with sd2 True show ?thesis by (simp add: run_scan_and_save_def open_session_def)
  next
    case False
    with fl2 have "commit (store_up e') (utcnow e') (sess ?init) = Inl OperationalError"
      by (simp add: commit_def)
    with sd2 False show ?thesis
      by (simp add: run_scan_and_save_def scan_failed_def rollback_def open_session_def)
  qed
qed

lemma run_twice_after_commit:
  assumes run: "run_scan_and_save e b db = Some r1" and ok: "failure r1 = None"
  shows "run_twice e b db =
           Some (r1, \<lparr>returned = [], store = store r1, notifier_calls = [], smtp_log = [],
                      failure = None\<rparr>)"
proof -
  from run ok have up: "store_up e" by (rule run_scan_committed)
  from second_scan_after_commit [OF run ok refl, of b] up run
  show ?thesis by (simp add: run_twice_def)
qed

end
